theory Spec2Isabelle
  imports Complex_Main "HOL-Library.Log_Nat"
begin

section \<open>Python values and errors\<close>

text \<open>
  The program is \<^verbatim>\<open>color_generator.py\<close>. Python integers are modelled as \<open>int\<close>,
  strings as \<open>string\<close> (lists of code points below 256), and every exception that one of
  the modelled functions can raise is a value of \<open>py_error\<close>, returned as \<open>Inl\<close>.
\<close>

datatype py_error = ZeroDivisionError | ValueError | IndexError

section \<open>The color parser\<close>

subsection \<open>Character classes and string helpers\<close>

text \<open>The regular-expression classes \<^verbatim>\<open>[0-9a-f]\<close> and \<^verbatim>\<open>[0-9]\<close>.\<close>

definition is_lower_hex :: "char \<Rightarrow> bool" where
  "is_lower_hex c = (c \<in> set ''0123456789abcdef'')"

definition is_digit :: "char \<Rightarrow> bool" where
  "is_digit c = (c \<in> set ''0123456789'')"

text \<open>
  The characters that \<^verbatim>\<open>str.rstrip()\<close> and \<^verbatim>\<open>int()\<close> treat as white space, among the code
  points below 256: TAB, LF, VT, FF, CR, FS, GS, RS, US, space, NEL and NBSP.
\<close>

definition is_space :: "char \<Rightarrow> bool" where
  "is_space c = (of_char c \<in> {9, 10, 11, 12, 13, 28, 29, 30, 31, 32, 133, 160 :: nat})"

definition rstrip :: "string \<Rightarrow> string" where
  "rstrip s = rev (dropWhile is_space (rev s))"

definition strip :: "string \<Rightarrow> string" where
  "strip s = dropWhile is_space (rstrip s)"

text \<open>\<^verbatim>\<open>str.split(sep)\<close> for a one-character separator: the result is never empty.\<close>

fun split_on :: "char \<Rightarrow> string \<Rightarrow> string list" where
  "split_on c [] = [] # []"
| "split_on c (x # xs) =
     (if x = c then [] # split_on c xs
      else (case split_on c xs of [] \<Rightarrow> [x] # [] | w # ws \<Rightarrow> (x # w) # ws))"

text \<open>
  In a Python pattern, \<^verbatim>\<open>$\<close> matches at the end of the string and also just before a
  newline that ends the string. Neither pattern of \<^verbatim>\<open>format_color\<close> can consume a
  newline, so \<^verbatim>\<open>^P$\<close> matches a string exactly when \<open>P\<close> matches the whole of
  \<open>before_dollar\<close> of it.
\<close>

definition before_dollar :: "string \<Rightarrow> string" where
  "before_dollar s = (if s \<noteq> [] \<and> last s = CHR 0x0A then butlast s else s)"

text \<open>\<^verbatim>\<open>([0-9a-f]{3}|[0-9a-f]{6}|[0-9a-f]{8})\<close>\<close>

definition hex_pattern :: "string \<Rightarrow> bool" where
  "hex_pattern s = (length s \<in> {3, 6, 8} \<and> list_all is_lower_hex s)"

text \<open>\<^verbatim>\<open>([0-9]{1,3},){3}[0-9]{1,3}\<close>: four comma-separated fields of one to three digits.\<close>

definition dec_field :: "string \<Rightarrow> bool" where
  "dec_field f = (1 \<le> length f \<and> length f \<le> 3 \<and> list_all is_digit f)"

definition dec_pattern :: "string \<Rightarrow> bool" where
  "dec_pattern s = (let fs = split_on CHR '','' s in length fs = 4 \<and> list_all dec_field fs)"

subsection \<open>Integer literals\<close>

definition digit_val :: "char \<Rightarrow> int" where
  "digit_val c =
     (if c \<in> set ''0123456789'' then of_char c - 48
      else if c \<in> set ''abcdef'' then of_char c - 87
      else of_char c - 55)"

definition is_hex :: "char \<Rightarrow> bool" where
  "is_hex c = (c \<in> set ''0123456789abcdefABCDEF'')"

definition digits_val :: "int \<Rightarrow> string \<Rightarrow> int" where
  "digits_val base ds = foldl (\<lambda>acc c. base * acc + digit_val c) 0 ds"

text \<open>
  \<^verbatim>\<open>int('0x' + t, 0)\<close>: white space at the end of the literal is ignored, at least one
  hexadecimal digit must follow the prefix, anything else raises \<^verbatim>\<open>ValueError\<close>. (The
  underscores that Python also admits between digits cannot reach this call: \<open>t\<close> is a
  slice of a string that passed \<open>hex_pattern\<close>.)
\<close>

definition hex_literal :: "string \<Rightarrow> py_error + int" where
  "hex_literal t =
     (let ds = rstrip t in
      if ds \<noteq> [] \<and> list_all is_hex ds then Inr (digits_val 16 ds) else Inl ValueError)"

text \<open>
  \<^verbatim>\<open>int(t)\<close> on a field of the decimal pattern: surrounding white space is ignored and
  the rest must be decimal digits. (Signs and underscores cannot reach this call either.)
\<close>

definition dec_literal :: "string \<Rightarrow> py_error + int" where
  "dec_literal t =
     (let ds = strip t in
      if ds \<noteq> [] \<and> list_all is_digit ds then Inr (digits_val 10 ds) else Inl ValueError)"

subsection \<open>\<^verbatim>\<open>format_color\<close>\<close>

text \<open>
  The four channel expressions are evaluated in the order red, green, blue, alpha; the
  first one that raises decides the outcome.
\<close>

definition rgba ::
  "py_error + int \<Rightarrow> py_error + int \<Rightarrow> py_error + int \<Rightarrow> py_error + int \<Rightarrow> py_error + int list"
where
  "rgba r g b a =
     (case r of Inl e \<Rightarrow> Inl e | Inr rv \<Rightarrow>
      (case g of Inl e \<Rightarrow> Inl e | Inr gv \<Rightarrow>
       (case b of Inl e \<Rightarrow> Inl e | Inr bv \<Rightarrow>
        (case a of Inl e \<Rightarrow> Inl e | Inr av \<Rightarrow> Inr [rv, gv, bv, av]))))"

text \<open>
  The result is \<open>Inr (Some [r, g, b, a])\<close> for a list, \<open>Inr None\<close> for Python's
  \<^verbatim>\<open>None\<close>, and \<open>Inl e\<close> when \<^verbatim>\<open>int\<close> raises.
\<close>

definition format_color :: "string \<Rightarrow> py_error + int list option" where
  "format_color color =
     (if hex_pattern (before_dollar color) then
        map_sum id Some
          (if length color = 3 then
             rgba (hex_literal (replicate 2 (color ! 0)))
                  (hex_literal (replicate 2 (color ! 1)))
                  (hex_literal (replicate 2 (color ! 2)))
                  (hex_literal ''ff'')
           else
             rgba (hex_literal (take 2 color))
                  (hex_literal (take 2 (drop 2 color)))
                  (hex_literal (take 2 (drop 4 color)))
                  (if length color = 8 then hex_literal (drop 6 color) else hex_literal ''ff''))
      else if dec_pattern (before_dollar color) then
        (let fs = split_on CHR '','' color in
         map_sum id Some
           (rgba (dec_literal (fs ! 0)) (dec_literal (fs ! 1))
                 (dec_literal (fs ! 2)) (dec_literal (fs ! 3))))
      else Inr None)"

section \<open>The integer reducers \<^verbatim>\<open>lowest\<close> and \<^verbatim>\<open>highest\<close>\<close>

text \<open>\<^verbatim>\<open>min(xs)\<close> and \<^verbatim>\<open>max(xs)\<close> raise \<^verbatim>\<open>ValueError\<close> on an empty list.\<close>

definition py_min :: "int list \<Rightarrow> py_error + int" where
  "py_min xs = (case xs of [] \<Rightarrow> Inl ValueError | x # r \<Rightarrow> Inr (fold min r x))"

definition py_max :: "int list \<Rightarrow> py_error + int" where
  "py_max xs = (case xs of [] \<Rightarrow> Inl ValueError | x # r \<Rightarrow> Inr (fold max r x))"

definition lowest :: "int list \<Rightarrow> int list \<Rightarrow> int list \<Rightarrow> int list \<Rightarrow> py_error + int list" where
  "lowest red_low green_low blue_low alpha_low =
     rgba (py_min red_low) (py_min green_low) (py_min blue_low) (py_min alpha_low)"

definition highest :: "int list \<Rightarrow> int list \<Rightarrow> int list \<Rightarrow> int list \<Rightarrow> py_error + int list" where
  "highest red_high green_high blue_high alpha_high =
     rgba (py_max red_high) (py_max green_high) (py_max blue_high) (py_max alpha_high)"

section \<open>Python floats\<close>

text \<open>
  A Python \<^verbatim>\<open>float\<close> is an IEEE 754 binary64 number. The model keeps the finite ones, as
  the rationals that they denote, and gives every arithmetic operation its IEEE meaning:
  the exact result, rounded to the nearest binary64 number, ties to the even mantissa
  (\<open>fl\<close>). A binary64 number is \<open>m * 2 powi e\<close> with \<open>\<bar>m\<bar> \<le> 2 ^ 53\<close> and \<open>- 1074 \<le> e\<close>;
  the smallest exponent covers the subnormal numbers. Results beyond the largest finite
  number (IEEE infinity) and NaN are outside the model: no value computed from channels
  that \<^verbatim>\<open>format_color\<close> returns comes near them. The sign of zero is not observable in
  the modelled functions.
\<close>

text \<open>\<open>ilog2 x\<close> is the binary exponent of a positive \<open>x\<close>: \<open>2 powi ilog2 x \<le> x < 2 powi (ilog2 x + 1)\<close>.\<close>

definition ilog2 :: "rat \<Rightarrow> int" where
  "ilog2 x = (case quotient_of x of (p, q) \<Rightarrow>
     (let k = bitlen p - bitlen q in if 2 powi k \<le> x then k else k - 1))"

text \<open>
  Rounding to the nearest integer, ties to even: what \<^verbatim>\<open>round(x)\<close> and \<^verbatim>\<open>round(x, 0)\<close>
  compute from the exact value of the float \<open>x\<close>.
\<close>

definition py_round :: "rat \<Rightarrow> int" where
  "py_round x = (let f = \<lfloor>x\<rfloor>; d = x - of_int f in
     if d < 1 / 2 then f else if 1 / 2 < d then f + 1 else if even f then f else f + 1)"

definition fl :: "rat \<Rightarrow> rat" where
  "fl x = (if x = 0 then 0 else
     (let e = max (ilog2 \<bar>x\<bar> - 52) (- 1074) in of_int (py_round (x / 2 powi e)) * 2 powi e))"

definition is_float :: "rat \<Rightarrow> bool" where
  "is_float x = (\<exists>m e. x = of_int m * 2 powi e \<and> \<bar>m\<bar> \<le> 2 ^ 53 \<and> - 1074 \<le> e)"

text \<open>
  The same rounding computed on a fraction \<open>p / q\<close> of integers, by integer arithmetic
  alone (lemma \<open>fl_frac\<close> below); used to evaluate \<open>fl\<close> on concrete numbers.
\<close>

definition round_rem :: "int \<Rightarrow> int \<Rightarrow> int \<Rightarrow> int" where
  "round_rem f r d =
     (if 2 * r < d then f else if d < 2 * r then f + 1 else if even f then f else f + 1)"

definition round_frac :: "int \<Rightarrow> int \<Rightarrow> int" where
  "round_frac n d = round_rem (n div d) (n mod d) d"

definition fl_mant :: "int \<Rightarrow> int \<Rightarrow> int \<Rightarrow> rat" where
  "fl_mant p q e = of_int (round_frac (p * 2 ^ nat (- e)) (q * 2 ^ nat e)) * 2 powi e"

definition fl_exp :: "int \<Rightarrow> int \<Rightarrow> int \<Rightarrow> int" where
  "fl_exp p q k =
     max ((if q * 2 ^ nat k \<le> \<bar>p\<bar> * 2 ^ nat (- k) then k else k - 1) - 52) (- 1074)"

definition fl_int :: "int \<Rightarrow> int \<Rightarrow> rat" where
  "fl_int p q = (if p = 0 then 0 else fl_mant p q (fl_exp p q (bitlen \<bar>p\<bar> - bitlen q)))"

text \<open>
  The float operations. \<open>fquot\<close> is \<^verbatim>\<open>/\<close> with a divisor that is not zero; where the
  divisor can be zero the calling function raises \<^verbatim>\<open>ZeroDivisionError\<close> first.
  \<open>float_of_int\<close> is the conversion that \<^verbatim>\<open>int / float\<close> and \<^verbatim>\<open>float * int\<close> apply to the
  integer operand; Python raises \<^verbatim>\<open>OverflowError\<close> for an integer beyond the float range
  (from about \<open>2 ^ 1024\<close>), so the theorems below bound the integers that they convert.
\<close>

definition fadd :: "rat \<Rightarrow> rat \<Rightarrow> rat" where "fadd x y = fl (x + y)"

definition fsub :: "rat \<Rightarrow> rat \<Rightarrow> rat" where "fsub x y = fl (x - y)"

definition fmul :: "rat \<Rightarrow> rat \<Rightarrow> rat" where "fmul x y = fl (x * y)"

definition fquot :: "rat \<Rightarrow> rat \<Rightarrow> rat" where "fquot x y = fl (x / y)"

definition float_of_int :: "int \<Rightarrow> rat" where "float_of_int n = fl (of_int n)"

text \<open>\<^verbatim>\<open>int(x)\<close> on a float: truncation towards zero.\<close>

definition py_int :: "rat \<Rightarrow> int" where
  "py_int x = (if 0 \<le> x then \<lfloor>x\<rfloor> else \<lceil>x\<rceil>)"

text \<open>
  \<^verbatim>\<open>a / b\<close> on two integers: the exact quotient, rounded once;
  \<^verbatim>\<open>ZeroDivisionError\<close> when \<open>b\<close> is zero.
\<close>

definition true_div :: "int \<Rightarrow> int \<Rightarrow> py_error + rat" where
  "true_div a b = (if b = 0 then Inl ZeroDivisionError else Inr (fl (of_int a / of_int b)))"

section \<open>The class \<^verbatim>\<open>Color\<close>\<close>

record Color =
  self_r :: rat
  self_g :: rat
  self_b :: rat
  self_a :: rat

text \<open>\<^verbatim>\<open>Color.__init__\<close>: each channel divided by \<^verbatim>\<open>255.\<close>\<close>

definition Color_init :: "int \<Rightarrow> int \<Rightarrow> int \<Rightarrow> int \<Rightarrow> Color" where
  "Color_init r g b a =
     \<lparr>self_r = fquot (float_of_int r) 255, self_g = fquot (float_of_int g) 255,
      self_b = fquot (float_of_int b) 255, self_a = fquot (float_of_int a) 255\<rparr>"

text \<open>
  \<^verbatim>\<open>"{:02x}".format(n)\<close>: lowercase hexadecimal digits, a minus sign for a negative
  number, zeros after the sign up to a width of two.
\<close>

fun hex_digits :: "nat \<Rightarrow> string" where
  "hex_digits n =
     (if n < 16 then [''0123456789abcdef'' ! n]
      else hex_digits (n div 16) @ [''0123456789abcdef'' ! (n mod 16)])"

declare hex_digits.simps [simp del]

definition format_02x :: "int \<Rightarrow> string" where
  "format_02x n =
     (let sign = (if n < 0 then [CHR ''-''] else []); ds = hex_digits (nat \<bar>n\<bar>)
      in sign @ replicate (2 - length sign - length ds) CHR ''0'' @ ds)"

definition color_to_hex :: "Color \<Rightarrow> string" where
  "color_to_hex c =
     (let hex_red = format_02x (py_int (fmul (self_r c) 255));
          hex_green = format_02x (py_int (fmul (self_g c) 255));
          hex_blue = format_02x (py_int (fmul (self_b c) 255));
          hex_alpha = format_02x (py_int (fmul (self_a c) 255))
      in ''#'' @ hex_red @ hex_green @ hex_blue @ hex_alpha)"

definition calc_hue :: "Color \<Rightarrow> rat" where
  "calc_hue c =
     (let cmax = max (max (self_r c) (self_g c)) (self_b c);
          cmin = min (min (self_r c) (self_g c)) (self_b c);
          delta = fsub cmax cmin
      in if delta = 0 then 0
         else
           (let h = (if cmax = self_r c then fmul (fquot (fsub (self_g c) (self_b c)) delta) 60
                     else if cmax = self_g c then fmul (fquot (fsub (self_b c) (self_r c)) delta) 60
                     else fmul (fquot (fsub (self_r c) (self_g c)) delta) 60)
            in if h < 0 then fadd h 360 else h))"

text \<open>
  \<^verbatim>\<open>Color.calc_saturation\<close> is a static method on three integers. The division raises
  when \<^verbatim>\<open>1 - abs(max + min - 1)\<close> is zero.
\<close>

definition calc_saturation :: "int \<Rightarrow> int \<Rightarrow> int \<Rightarrow> py_error + rat" where
  "calc_saturation r g b =
     (let r = fquot (float_of_int r) 255; g = fquot (float_of_int g) 255;
          b = fquot (float_of_int b) 255;
          cmax = max (max r g) b; cmin = min (min r g) b
      in if cmax \<noteq> cmin then
           (let d = fsub 1 \<bar>fsub (fadd cmax cmin) 1\<bar>
            in if d = 0 then Inl ZeroDivisionError else Inr (fquot (fsub cmax cmin) d))
         else Inr 0)"

definition calc_lightness :: "Color \<Rightarrow> rat" where
  "calc_lightness c =
     fquot (fadd (max (max (self_r c) (self_g c)) (self_b c))
                 (min (min (self_r c) (self_g c)) (self_b c))) 2"

section \<open>Reading the batch\<close>

text \<open>
  The loop of \<^verbatim>\<open>read_colors\<close> over the lines: a line that parses is appended to the four
  channel lists, any other line is skipped.
\<close>

fun collect ::
  "string list \<Rightarrow> int list \<times> int list \<times> int list \<times> int list \<Rightarrow>
   py_error + int list \<times> int list \<times> int list \<times> int list"
where
  "collect [] acc = Inr acc"
| "collect (line # rest) (reds, greens, blues, alphas) =
     (case format_color (rstrip line) of
        Inl e \<Rightarrow> Inl e
      | Inr None \<Rightarrow> collect rest (reds, greens, blues, alphas)
      | Inr (Some color_rgba) \<Rightarrow>
          collect rest (reds @ [color_rgba ! 0], greens @ [color_rgba ! 1],
                        blues @ [color_rgba ! 2], alphas @ [color_rgba ! 3]))"

text \<open>
  \<^verbatim>\<open>read_colors\<close> on the text of the file (the file that cannot be opened ends the
  program and is not modelled) and the colors of the command line.
\<close>

definition read_colors ::
  "string \<Rightarrow> string list \<Rightarrow> py_error + int list \<times> int list \<times> int list \<times> int list" where
  "read_colors lines color_cli = collect (split_on CHR 0x0A lines @ color_cli) ([], [], [], [])"

section \<open>The reducers on floats\<close>

text \<open>
  The arithmetic mean of the specification, in exact arithmetic; \<^verbatim>\<open>mix\<close> is compared with
  it below.
\<close>

definition arithmetic_mean :: "int list \<Rightarrow> rat" where
  "arithmetic_mean xs = of_int (sum_list xs) / of_int (int (length xs))"

text \<open>One channel of \<^verbatim>\<open>mix\<close>: \<^verbatim>\<open>int(round(sum(xs) / len(xs), 0))\<close>.\<close>

definition mix_channel :: "int list \<Rightarrow> py_error + int" where
  "mix_channel xs =
     (case true_div (sum_list xs) (int (length xs)) of
        Inl e \<Rightarrow> Inl e
      | Inr new_mix \<Rightarrow> Inr (py_round new_mix))"

definition mix :: "int list \<Rightarrow> int list \<Rightarrow> int list \<Rightarrow> int list \<Rightarrow> py_error + int list" where
  "mix red_mix green_mix blue_mix alpha_mix =
     rgba (mix_channel red_mix) (mix_channel green_mix) (mix_channel blue_mix)
          (mix_channel alpha_mix)"

text \<open>
  The loop of \<^verbatim>\<open>average_saturation\<close>: index \<open>i\<close> runs over \<^verbatim>\<open>range(len(red_avg))\<close>, and
  \<^verbatim>\<open>green_avg[i]\<close> or \<^verbatim>\<open>blue_avg[i]\<close> raises \<^verbatim>\<open>IndexError\<close> when that list is shorter.
\<close>

fun saturations :: "int list \<Rightarrow> int list \<Rightarrow> int list \<Rightarrow> py_error + rat list" where
  "saturations [] green_avg blue_avg = Inr []"
| "saturations (r # red_avg) [] blue_avg = Inl IndexError"
| "saturations (r # red_avg) (g # green_avg) [] = Inl IndexError"
| "saturations (r # red_avg) (g # green_avg) (b # blue_avg) =
     (case calc_saturation r g b of
        Inl e \<Rightarrow> Inl e
      | Inr s \<Rightarrow>
          (case saturations red_avg green_avg blue_avg of
             Inl e \<Rightarrow> Inl e
           | Inr ss \<Rightarrow> Inr (s # ss)))"

text \<open>
  \<^verbatim>\<open>sum\<close> adds from the left, starting at 0 (the plain accumulation of CPython up to
  3.11; later versions add a compensation term).
\<close>

definition py_sum :: "rat list \<Rightarrow> rat" where
  "py_sum xs = foldl fadd 0 xs"

definition average_saturation :: "int list \<Rightarrow> int list \<Rightarrow> int list \<Rightarrow> py_error + rat" where
  "average_saturation red_avg green_avg blue_avg =
     (case saturations red_avg green_avg blue_avg of
        Inl e \<Rightarrow> Inl e
      | Inr ss \<Rightarrow>
          if length ss = 0 then Inl ZeroDivisionError
          else Inr (fquot (py_sum ss) (float_of_int (int (length ss)))))"

text \<open>\<^verbatim>\<open>xs.index(v)\<close> for a value that occurs in \<open>xs\<close>: the first position.\<close>

fun list_index :: "int list \<Rightarrow> int \<Rightarrow> nat" where
  "list_index [] v = 0"
| "list_index (x # xs) v = (if x = v then 0 else Suc (list_index xs v))"

text \<open>
  Lines 285 to 287 and 290 to 292 of \<^verbatim>\<open>mix_saturate\<close>: both candidate values are
  computed, the first is taken when it lies in \<open>[0, 1]\<close>, the second otherwise.
\<close>

definition new_cmax :: "rat \<Rightarrow> rat \<Rightarrow> py_error + rat" where
  "new_cmax avg_saturation cmin_mixsat =
     (if fadd avg_saturation 1 = 0 then Inl ZeroDivisionError
      else
        (let new_cmax_first =
               fquot (fadd (fsub (fmul 2 avg_saturation) (fmul avg_saturation cmin_mixsat))
                           cmin_mixsat)
                     (fadd avg_saturation 1)
         in if fsub avg_saturation 1 = 0 then Inl ZeroDivisionError
            else
              (let new_cmax_second =
                     fquot (fsub (fmul (- avg_saturation) cmin_mixsat) cmin_mixsat)
                           (fsub avg_saturation 1)
               in Inr (if 0 \<le> new_cmax_first \<and> new_cmax_first \<le> 1 then new_cmax_first
                       else new_cmax_second))))"

definition new_cmin :: "rat \<Rightarrow> rat \<Rightarrow> py_error + rat" where
  "new_cmin avg_saturation cmax_mixsat =
     (if fsub avg_saturation 1 = 0 then Inl ZeroDivisionError
      else
        (let new_cmin_first =
               fquot (fsub (fsub (fmul 2 avg_saturation) (fmul avg_saturation cmax_mixsat))
                           cmax_mixsat)
                     (fsub avg_saturation 1)
         in if fadd avg_saturation 1 = 0 then Inl ZeroDivisionError
            else
              (let new_cmin_second =
                     fquot (fsub cmax_mixsat (fmul avg_saturation cmax_mixsat))
                           (fadd avg_saturation 1)
               in Inr (if 0 \<le> new_cmin_first \<and> new_cmin_first \<le> 1 then new_cmin_first
                       else new_cmin_second))))"

definition mix_saturate ::
  "int list \<Rightarrow> int list \<Rightarrow> int list \<Rightarrow> int list \<Rightarrow> rat \<Rightarrow> py_error + int list" where
  "mix_saturate red_mixsat green_mixsat blue_mixsat alpha_mixsat avg_saturation =
     (if red_mixsat = [] \<or> green_mixsat = [] \<or> blue_mixsat = [] \<or> alpha_mixsat = []
      then Inl IndexError
      else
        (let last_red_mixsat = last red_mixsat; last_green_mixsat = last green_mixsat;
             last_blue_mixsat = last blue_mixsat; last_alpha_mixsat = last alpha_mixsat;
             last_color = [last_red_mixsat, last_green_mixsat, last_blue_mixsat];
             cmax_int = max last_red_mixsat (max last_green_mixsat last_blue_mixsat);
             index_max = list_index last_color cmax_int;
             cmin_int = min last_red_mixsat (min last_green_mixsat last_blue_mixsat);
             index_min = list_index last_color cmin_int;
             cmax_mixsat = fquot (float_of_int cmax_int) 255;
             cmin_mixsat = fquot (float_of_int cmin_int) 255
         in case calc_saturation last_red_mixsat last_green_mixsat last_blue_mixsat of
              Inl e \<Rightarrow> Inl e
            | Inr last_saturation \<Rightarrow>
                if last_saturation < avg_saturation \<and> cmax_mixsat \<noteq> cmin_mixsat then
                  (case new_cmax avg_saturation cmin_mixsat of
                     Inl e \<Rightarrow> Inl e
                   | Inr v \<Rightarrow>
                       Inr (last_color[index_max := py_round (fmul v 255)] @ [last_alpha_mixsat]))
                else if avg_saturation < last_saturation \<and> cmax_mixsat \<noteq> cmin_mixsat then
                  (case new_cmin avg_saturation cmax_mixsat of
                     Inl e \<Rightarrow> Inl e
                   | Inr v \<Rightarrow>
                       Inr (last_color[index_min := py_round (fmul v 255)] @ [last_alpha_mixsat]))
                else Inr (last_color @ [last_alpha_mixsat])))"

section \<open>Properties of the float model\<close>

lemma bitlen_powi_bounds:
  assumes "0 < (p::int)"
  shows "(2::rat) powi (bitlen p - 1) \<le> of_int p" "of_int p < (2::rat) powi (bitlen p)"
proof -
  from bitlen_bounds[OF assms] have b: "2 ^ nat (bitlen p - 1) \<le> p" "p < 2 ^ nat (bitlen p)"
    by auto
  from assms have ge: "1 \<le> bitlen p" by (auto simp: bitlen_alt_def)
  from b(1) have "(of_int (2 ^ nat (bitlen p - 1)) :: rat) \<le> of_int p"
    by (simp only: of_int_le_iff)
  with ge show "(2::rat) powi (bitlen p - 1) \<le> of_int p"
    by (simp add: power_int_def)
  from b(2) have "(of_int p :: rat) < of_int (2 ^ nat (bitlen p))"
    by (simp only: of_int_less_iff)
  with ge show "of_int p < (2::rat) powi (bitlen p)"
    by (simp add: power_int_def)
qed

lemma powi2_less_iff: "(2::rat) powi a < 2 powi b \<longleftrightarrow> a < b"
  by (metis less_le_not_le linorder_not_le one_less_numeral_iff power_int_increasing
      power_int_strict_increasing semiring_norm(76) order_less_imp_le)

lemma powi2_le_iff: "(2::rat) powi a \<le> 2 powi b \<longleftrightarrow> a \<le> b"
  by (metis linorder_not_le powi2_less_iff)

lemma powi2_add: "(2::rat) powi (a + b) = 2 powi a * 2 powi b"
  by (simp add: power_int_add)

lemma powi2_diff: "(2::rat) powi (a - b) = 2 powi a / 2 powi b"
  by (simp add: power_int_diff)

lemma powi2_suc: "(2::rat) powi (a + 1) = 2 * 2 powi a"
  by (simp add: power_int_add)

lemma frac_log_bounds:
  assumes p: "0 < p" and q: "0 < q"
  shows "(2::rat) powi (bitlen p - bitlen q - 1) \<le> of_int p / of_int q"
    "of_int p / of_int q < (2::rat) powi (bitlen p - bitlen q + 1)"
proof -
  define k where "k = bitlen p - bitlen q"
  have "of_int p < (2::rat) powi (bitlen p)" using bitlen_powi_bounds(2)[OF p] .
  also have "\<dots> = 2 powi (k + 1) * 2 powi (bitlen q - 1)"
    by (simp add: k_def flip: powi2_add)
  also have "\<dots> \<le> 2 powi (k + 1) * of_int q"
    using bitlen_powi_bounds(1)[OF q] by (simp add: mult_left_mono)
  finally show "of_int p / of_int q < (2::rat) powi (bitlen p - bitlen q + 1)"
    using q by (simp add: k_def pos_divide_less_eq)
  have "2 powi (k - 1) * of_int q \<le> 2 powi (k - 1) * (2::rat) powi (bitlen q)"
    using bitlen_powi_bounds(2)[OF q] by (simp add: mult_left_mono)
  also have "\<dots> = 2 powi (bitlen p - 1)"
    by (simp add: k_def flip: powi2_add)
  also have "\<dots> \<le> of_int p" using bitlen_powi_bounds(1)[OF p] .
  finally show "(2::rat) powi (bitlen p - bitlen q - 1) \<le> of_int p / of_int q"
    using q by (simp add: k_def pos_le_divide_eq)
qed

lemma ilog2_bounds:
  assumes "0 < x"
  shows "2 powi (ilog2 x) \<le> x" "x < 2 powi (ilog2 x + 1)"
proof -
  obtain p q where pq: "quotient_of x = (p, q)" by (cases "quotient_of x")
  then have q: "0 < q" and x: "x = of_int p / of_int q"
    by (simp_all add: quotient_of_denom_pos quotient_of_div)
  with assms have p: "0 < p" by (simp add: zero_less_divide_iff)
  define k where "k = bitlen p - bitlen q"
  note b = frac_log_bounds[OF p q, folded k_def x]
  have il: "ilog2 x = (if 2 powi k \<le> x then k else k - 1)"
    by (simp add: ilog2_def pq k_def Let_def)
  show "2 powi (ilog2 x) \<le> x" using b(1) by (simp add: il)
  show "x < 2 powi (ilog2 x + 1)" using b(2) by (auto simp: il not_le)
qed

lemma ilog2_unique:
  assumes "2 powi l \<le> x" "x < 2 powi (l + 1)"
  shows "ilog2 x = l"
proof -
  have pos: "0 < x" using assms(1) by (meson less_le_trans zero_less_numeral zero_less_power_int)
  note b = ilog2_bounds[OF pos]
  have "2 powi l < (2::rat) powi (ilog2 x + 1)" using assms(1) b(2) by simp
  then have 1: "l < ilog2 x + 1" by (simp add: powi2_less_iff)
  have "2 powi (ilog2 x) < (2::rat) powi (l + 1)" using assms(2) b(1) by simp
  then have 2: "ilog2 x < l + 1" by (simp add: powi2_less_iff)
  from 1 2 show ?thesis by simp
qed

lemma py_round_cases:
  "py_round x = \<lfloor>x\<rfloor> \<and> x - of_int \<lfloor>x\<rfloor> \<le> 1 / 2 \<or>
   py_round x = \<lfloor>x\<rfloor> + 1 \<and> 1 / 2 \<le> x - of_int \<lfloor>x\<rfloor>"
  by (auto simp: py_round_def Let_def)

lemma py_round_error: "\<bar>of_int (py_round x) - x\<bar> \<le> 1 / 2"
proof -
  have "of_int \<lfloor>x\<rfloor> \<le> x" "x < of_int \<lfloor>x\<rfloor> + 1" by linarith+
  with py_round_cases[of x] show ?thesis by (auto simp: abs_le_iff)
qed

lemma py_round_nearest: "\<bar>of_int (py_round x) - x\<bar> \<le> \<bar>of_int n - x\<bar>"
proof -
  define f :: rat where "f = of_int \<lfloor>x\<rfloor>"
  have fx: "f \<le> x" "x < f + 1" unfolding f_def by linarith+
  have pr: "of_int (py_round x) = f \<and> x - f \<le> 1 / 2 \<or> of_int (py_round x) = f + 1 \<and> 1 / 2 \<le> x - f"
    using py_round_cases[of x] unfolding f_def by auto
  show ?thesis
  proof (cases "n \<le> \<lfloor>x\<rfloor>")
    case True
    then have "(of_int n :: rat) \<le> f" unfolding f_def by (simp only: of_int_le_iff)
    with fx pr show ?thesis by linarith
  next
    case False
    then have "\<lfloor>x\<rfloor> + 1 \<le> n" by simp
    then have "(of_int (\<lfloor>x\<rfloor> + 1) :: rat) \<le> of_int n" by (simp only: of_int_le_iff)
    then have "f + 1 \<le> of_int n" unfolding f_def by simp
    with fx pr show ?thesis by linarith
  qed
qed

lemma py_round_unique:
  assumes "\<bar>x - of_int n\<bar> < 1 / 2"
  shows "py_round x = n"
proof -
  have "\<bar>of_int (py_round x) - x\<bar> \<le> \<bar>of_int n - x\<bar>" by (rule py_round_nearest)
  with assms have "\<bar>(of_int (py_round x) :: rat) - of_int n\<bar> < 1" by linarith
  then have "\<bar>(of_int (py_round x - n) :: rat)\<bar> < 1" by simp
  then have "\<bar>py_round x - n\<bar> < 1" by (metis of_int_abs of_int_less_1_iff)
  then show ?thesis by simp
qed

lemma py_round_of_int [simp]: "py_round (of_int n) = n"
  by (rule py_round_unique) simp

lemma fl_0 [simp]: "fl 0 = 0"
  by (simp add: fl_def)

lemma fl_mantissa_bound:
  assumes "x \<noteq> 0" "ilog2 \<bar>x\<bar> - 52 \<le> e"
  shows "\<bar>py_round (x / 2 powi e)\<bar> \<le> 2 ^ 53"
proof -
  from assms(1) have pos: "0 < \<bar>x\<bar>" by simp
  have "\<bar>x\<bar> < 2 powi (ilog2 \<bar>x\<bar> + 1)" by (rule ilog2_bounds(2)[OF pos])
  also have "\<dots> \<le> 2 powi (e + 53)" using assms(2) by (simp add: powi2_le_iff)
  also have "\<dots> = 2 powi e * 2 ^ 53" by (simp add: powi2_add)
  finally have "\<bar>x\<bar> / 2 powi e < 2 ^ 53"
    by (simp add: pos_divide_less_eq mult.commute)
  then have z: "\<bar>x / 2 powi e\<bar> < 2 ^ 53" by simp
  have "\<bar>of_int (py_round (x / 2 powi e)) - x / 2 powi e\<bar> \<le> 1 / 2" by (rule py_round_error)
  with z have "\<bar>(of_int (py_round (x / 2 powi e)) :: rat)\<bar> < 2 ^ 53 + 1" by linarith
  then have "(of_int \<bar>py_round (x / 2 powi e)\<bar> :: rat) < of_int (2 ^ 53 + 1)" by simp
  then have "\<bar>py_round (x / 2 powi e)\<bar> < 2 ^ 53 + 1" by (simp only: of_int_less_iff)
  then show ?thesis by simp
qed

lemma fl_is_float: "is_float (fl x)"
proof (cases "x = 0")
  case True
  have "(0::rat) = of_int 0 * 2 powi 0" by simp
  then show ?thesis unfolding is_float_def True fl_0 by (intro exI[of _ 0]) simp
next
  case False
  define e where "e = max (ilog2 \<bar>x\<bar> - 52) (- 1074)"
  have "fl x = of_int (py_round (x / 2 powi e)) * 2 powi e"
    using False by (simp add: fl_def e_def Let_def)
  moreover have "\<bar>py_round (x / 2 powi e)\<bar> \<le> 2 ^ 53"
    by (rule fl_mantissa_bound[OF False]) (simp add: e_def)
  moreover have "- 1074 \<le> e" by (simp add: e_def)
  ultimately show ?thesis unfolding is_float_def by blast
qed

lemma fl_nearest:
  assumes "is_float r"
  shows "\<bar>fl x - x\<bar> \<le> \<bar>r - x\<bar>"
proof (cases "x = 0")
  case True
  then show ?thesis by simp
next
  case False
  define l where "l = ilog2 \<bar>x\<bar>"
  define e where "e = max (l - 52) (- 1074)"
  define m where "m = py_round (x / 2 powi e)"
  have flx: "fl x = of_int m * 2 powi e"
    using False by (simp add: fl_def e_def l_def m_def Let_def)
  have pe: "(0::rat) < 2 powi e" by simp
  have grid: "\<bar>fl x - x\<bar> \<le> \<bar>of_int n * 2 powi e - x\<bar>" for n
  proof -
    have "\<bar>of_int m - x / 2 powi e\<bar> \<le> \<bar>of_int n - x / 2 powi e\<bar>"
      unfolding m_def by (rule py_round_nearest)
    then have "\<bar>of_int m - x / 2 powi e\<bar> * 2 powi e \<le> \<bar>of_int n - x / 2 powi e\<bar> * 2 powi e"
      using pe by (simp add: mult_right_mono)
    moreover have "\<bar>of_int k - x / 2 powi e\<bar> * 2 powi e = \<bar>of_int k * 2 powi e - x\<bar>" for k
    proof -
      have "\<bar>of_int k - x / 2 powi e\<bar> * 2 powi e = \<bar>(of_int k - x / 2 powi e) * 2 powi e\<bar>"
        using pe by (simp add: abs_mult)
      also have "(of_int k - x / 2 powi e) * 2 powi e = of_int k * 2 powi e - x"
        using pe by (simp add: left_diff_distrib)
      finally show ?thesis .
    qed
    ultimately show ?thesis by (simp add: flx)
  qed
  from assms obtain M E where r: "r = of_int M * 2 powi E" "\<bar>M\<bar> \<le> 2 ^ 53" "- 1074 \<le> E"
    unfolding is_float_def by blast
  show ?thesis
  proof (cases "e \<le> E")
    case True
    then have "(2::rat) powi (E - e) = 2 ^ nat (E - e)" by (simp add: power_int_def)
    moreover have "(2::rat) powi E = 2 powi (E - e) * 2 powi e"
      by (simp flip: powi2_add)
    ultimately have "r = of_int (M * 2 ^ nat (E - e)) * 2 powi e"
      by (simp add: r(1))
    then show ?thesis using grid by metis
  next
    case False
    with r(3) have el: "e = l - 52" and E: "E \<le> e - 1" by (auto simp: e_def)
    have xpos: "0 < \<bar>x\<bar>" using \<open>x \<noteq> 0\<close> by simp
    have lx: "2 powi l \<le> \<bar>x\<bar>" unfolding l_def by (rule ilog2_bounds(1)[OF xpos])
    have "\<bar>r\<bar> = of_int \<bar>M\<bar> * 2 powi E" by (simp add: r(1) abs_mult)
    also have "\<dots> \<le> of_int (2 ^ 53) * 2 powi E"
      using r(2) by (intro mult_right_mono) (simp_all only: of_int_le_iff zero_le_power_int zero_le_numeral)
    also have "\<dots> = 2 powi (E + 53)" by (simp add: powi2_add)
    also have "\<dots> \<le> 2 powi l" using E el by (simp add: powi2_le_iff)
    finally have rl: "\<bar>r\<bar> \<le> 2 powi l" .
    have l2: "(2::rat) powi l = of_int (2 ^ 52) * 2 powi e"
      by (simp add: el powi2_diff)
    show ?thesis
    proof (cases "0 < x")
      case True
      have "\<bar>fl x - x\<bar> \<le> \<bar>of_int (2 ^ 52) * 2 powi e - x\<bar>" by (rule grid)
      with l2 have "\<bar>fl x - x\<bar> \<le> \<bar>2 powi l - x\<bar>" by simp
      with lx rl True show ?thesis by linarith
    next
      case False
      with \<open>x \<noteq> 0\<close> have neg: "x < 0" by simp
      have "\<bar>fl x - x\<bar> \<le> \<bar>of_int (- (2 ^ 52)) * 2 powi e - x\<bar>" by (rule grid)
      with l2 have "\<bar>fl x - x\<bar> \<le> \<bar>- (2 powi l) - x\<bar>" by simp
      with lx rl neg show ?thesis by linarith
    qed
  qed
qed

lemma fl_exact: "is_float x \<Longrightarrow> fl x = x"
  using fl_nearest[of x x] by simp

lemma fl_idem [simp]: "fl (fl x) = fl x"
  by (simp add: fl_exact fl_is_float)

lemma fl_mono:
  assumes "x \<le> y"
  shows "fl x \<le> fl y"
proof (rule ccontr)
  assume "\<not> fl x \<le> fl y"
  then have lt: "fl y < fl x" by simp
  have 1: "\<bar>fl x - x\<bar> \<le> \<bar>fl y - x\<bar>" by (rule fl_nearest[OF fl_is_float])
  have 2: "\<bar>fl y - y\<bar> \<le> \<bar>fl x - y\<bar>" by (rule fl_nearest[OF fl_is_float])
  from assms consider "x = y" | "x < y" by linarith
  then show False
  proof cases
    case 1
    with lt show False by simp
  next
    case 2
    with lt \<open>\<bar>fl x - x\<bar> \<le> \<bar>fl y - x\<bar>\<close> \<open>\<bar>fl y - y\<bar> \<le> \<bar>fl x - y\<bar>\<close> show False
      by (auto simp: abs_if split: if_splits)
  qed
qed

lemma py_round_frac:
  assumes "0 < d"
  shows "py_round (of_int n / of_int d) = round_frac n d"
proof -
  have fl: "\<lfloor>(of_int n :: rat) / of_int d\<rfloor> = n div d" by (rule floor_divide_of_int_eq)
  have "(of_int n :: rat) = of_int (n div d * d + n mod d)" by simp
  also have "\<dots> = of_int (n div d) * of_int d + of_int (n mod d)" by (simp only: of_int_add of_int_mult)
  finally have "(of_int n :: rat) / of_int d = of_int (n div d) + of_int (n mod d) / of_int d"
    using assms by (simp add: field_simps)
  then have fr: "(of_int n :: rat) / of_int d - of_int (n div d) = of_int (n mod d) / of_int d"
    by simp
  have lt: "(of_int (n mod d) :: rat) / of_int d < 1 / 2 \<longleftrightarrow> 2 * (n mod d) < d"
  proof -
    have "(of_int (n mod d) :: rat) / of_int d < 1 / 2 \<longleftrightarrow> (of_int (2 * (n mod d)) :: rat) < of_int d"
      using assms by (simp add: field_simps)
    then show ?thesis by (simp only: of_int_less_iff)
  qed
  have gt: "1 / 2 < (of_int (n mod d) :: rat) / of_int d \<longleftrightarrow> d < 2 * (n mod d)"
  proof -
    have "1 / 2 < (of_int (n mod d) :: rat) / of_int d \<longleftrightarrow> (of_int d :: rat) < of_int (2 * (n mod d))"
      using assms by (simp add: field_simps)
    then show ?thesis by (simp only: of_int_less_iff)
  qed
  show ?thesis
    unfolding py_round_def round_frac_def round_rem_def Let_def fl fr lt gt by simp
qed

lemma powi2_nat_split: "(2::rat) powi e = of_int (2 ^ nat e) / of_int (2 ^ nat (- e))"
  by (cases "0 \<le> e") (simp_all add: power_int_def field_simps)

lemma fl_frac:
  assumes q: "0 < q"
  shows "fl (of_int p / of_int q) = fl_int p q"
proof (cases "p = 0")
  case True
  then show ?thesis by (simp add: fl_int_def)
next
  case False
  define x :: rat where "x = of_int p / of_int q"
  have x0: "x \<noteq> 0" using False q by (simp add: x_def)
  have ax: "\<bar>x\<bar> = of_int \<bar>p\<bar> / of_int q" using q by (simp add: x_def)
  have ap: "0 < \<bar>p\<bar>" using False by simp
  define k where "k = bitlen \<bar>p\<bar> - bitlen q"
  define l where "l = (if q * 2 ^ nat k \<le> \<bar>p\<bar> * 2 ^ nat (- k) then k else k - 1)"
  note b = frac_log_bounds[OF ap q, folded k_def ax]
  have cmp: "q * 2 ^ nat k \<le> \<bar>p\<bar> * 2 ^ nat (- k) \<longleftrightarrow> 2 powi k \<le> \<bar>x\<bar>"
  proof -
    have "2 powi k \<le> \<bar>x\<bar> \<longleftrightarrow> (of_int (2 ^ nat k) :: rat) / of_int (2 ^ nat (- k)) \<le> of_int \<bar>p\<bar> / of_int q"
      by (simp only: powi2_nat_split[of k] ax)
    also have "\<dots> \<longleftrightarrow> (of_int (q * 2 ^ nat k) :: rat) \<le> of_int (\<bar>p\<bar> * 2 ^ nat (- k))"
      using q by (simp add: field_simps)
    also have "\<dots> \<longleftrightarrow> q * 2 ^ nat k \<le> \<bar>p\<bar> * 2 ^ nat (- k)" by (simp only: of_int_le_iff)
    finally show ?thesis by simp
  qed
  have il: "ilog2 \<bar>x\<bar> = l"
  proof (rule ilog2_unique)
    show "2 powi l \<le> \<bar>x\<bar>" using b(1) cmp by (simp add: l_def)
    show "\<bar>x\<bar> < 2 powi (l + 1)" using b(2) cmp by (auto simp: l_def not_le)
  qed
  define e where "e = max (l - 52) (- 1074)"
  have fe: "fl_exp p q k = e" by (simp add: fl_exp_def l_def e_def)
  have "x / 2 powi e = of_int (p * 2 ^ nat (- e)) / of_int (q * 2 ^ nat e)"
    by (simp add: x_def powi2_nat_split[of e])
  moreover have "0 < q * 2 ^ nat e" using q by simp
  ultimately have "py_round (x / 2 powi e) = round_frac (p * 2 ^ nat (- e)) (q * 2 ^ nat e)"
    by (simp only: py_round_frac)
  then have "fl x = fl_mant p q e"
    using x0 by (simp add: fl_def il e_def fl_mant_def Let_def)
  then show ?thesis using False fe by (simp add: fl_int_def k_def x_def)
qed

lemma fl_numeral_frac: "fl (numeral a / numeral b) = fl_int (numeral a) (numeral b)"
  using fl_frac[of "numeral b" "numeral a"] by simp
lemma fl_neg_numeral_frac: "fl (- (numeral a / numeral b)) = fl_int (- numeral a) (numeral b)"
  using fl_frac[of "numeral b" "- numeral a"] by simp
lemma fl_numeral: "fl (numeral a) = fl_int (numeral a) 1"
  using fl_frac[of 1 "numeral a"] by simp
lemma fl_neg_numeral: "fl (- numeral a) = fl_int (- numeral a) 1"
  using fl_frac[of 1 "- numeral a"] by simp
lemma fl_one_frac: "fl (1 / numeral b) = fl_int 1 (numeral b)"
  using fl_frac[of "numeral b" 1] by simp
lemma fl_neg_one_frac: "fl (- (1 / numeral b)) = fl_int (- 1) (numeral b)"
  using fl_frac[of "numeral b" "- 1"] by simp
lemma is_floatI: "x = of_int m * 2 powi e \<Longrightarrow> \<bar>m\<bar> \<le> 2 ^ 53 \<Longrightarrow> - 1074 \<le> e \<Longrightarrow> is_float x"
  unfolding is_float_def by blast
lemma is_float_of_int: "\<bar>n\<bar> \<le> 2 ^ 53 \<Longrightarrow> is_float (of_int n)"
  by (rule is_floatI[of _ n 0]) simp_all
lemma fl_of_int: "\<bar>n\<bar> \<le> 2 ^ 53 \<Longrightarrow> fl (of_int n) = of_int n"
  by (simp add: fl_exact is_float_of_int)
lemma fl_1 [simp]: "fl 1 = 1"
  using fl_of_int[of 1] by simp
lemma fl_neg_1 [simp]: "fl (- 1) = - 1"
  using fl_of_int[of "- 1"] by simp
lemma bitlen_numeral: "bitlen (numeral a) = bitlen (numeral a div 2) + 1"
  by (subst compute_bitlen) simp
lemma bitlen_one: "bitlen 1 = 1"
  by (subst compute_bitlen) simp

lemmas fl_eval = fl_numeral_frac fl_neg_numeral_frac fl_numeral fl_neg_numeral fl_one_frac
  fl_neg_one_frac fl_int_def fl_exp_def fl_mant_def round_frac_def round_rem_def
  bitlen_numeral bitlen_one

subsection \<open>Error bounds and exact cases\<close>

lemma is_float_double: "is_float x \<Longrightarrow> is_float (2 * x)"
proof -
  assume "is_float x"
  then obtain m e where x: "x = of_int m * 2 powi e" "\<bar>m\<bar> \<le> 2 ^ 53" "- 1074 \<le> e"
    unfolding is_float_def by blast
  have "2 * x = of_int m * 2 powi (e + 1)" by (simp add: x(1) powi2_suc)
  then show ?thesis using x(2,3) by (intro is_floatI[of _ m "e + 1"]) simp_all
qed

lemma fl_error:
  assumes "\<bar>x\<bar> < 2 powi (l + 1)" "- 1022 \<le> l"
  shows "\<bar>fl x - x\<bar> \<le> 2 powi (l - 53)"
proof (cases "x = 0")
  case True
  then show ?thesis by simp
next
  case False
  define e where "e = max (ilog2 \<bar>x\<bar> - 52) (- 1074)"
  define z where "z = x / 2 powi e"
  have pe: "(0::rat) < 2 powi e" by simp
  from False have xpos: "0 < \<bar>x\<bar>" by simp
  have "2 powi (ilog2 \<bar>x\<bar>) \<le> \<bar>x\<bar>" by (rule ilog2_bounds(1)[OF xpos])
  with assms(1) have "(2::rat) powi (ilog2 \<bar>x\<bar>) < 2 powi (l + 1)" by simp
  then have "ilog2 \<bar>x\<bar> \<le> l" by (simp add: powi2_less_iff)
  with assms(2) have el: "e \<le> l - 52" by (simp add: e_def)
  have flx: "fl x = of_int (py_round z) * 2 powi e"
    using False by (simp add: fl_def e_def z_def Let_def)
  have "fl x - x = (of_int (py_round z) - z) * 2 powi e"
    using pe by (simp add: flx z_def left_diff_distrib)
  then have "\<bar>fl x - x\<bar> = \<bar>of_int (py_round z) - z\<bar> * 2 powi e"
    using pe by (simp add: abs_mult)
  also have "\<dots> \<le> 1 / 2 * 2 powi e"
    using py_round_error[of z] pe by (intro mult_right_mono) simp_all
  also have "\<dots> = 2 powi (e - 1)" by (simp add: powi2_diff)
  also have "\<dots> \<le> 2 powi (l - 53)" using el by (simp add: powi2_le_iff)
  finally show ?thesis .
qed

lemma fl_close:
  assumes "2 powi (e + 52) \<le> \<bar>y\<bar>" "\<bar>y\<bar> < 2 powi (e + 53)" "- 1074 \<le> e"
    and "\<bar>y - of_int m * 2 powi e\<bar> < 2 powi (e - 1)"
  shows "fl y = of_int m * 2 powi e"
proof -
  have pe: "(0::rat) < 2 powi e" by simp
  have y0: "y \<noteq> 0"
  proof
    assume "y = 0"
    with assms(1) have "(2::rat) powi (e + 52) \<le> 0" by (simp only: abs_zero)
    moreover have "(0::rat) < 2 powi (e + 52)" by (rule zero_less_power_int) simp
    ultimately show False by linarith
  qed
  have "\<bar>y\<bar> < 2 powi (e + 52 + 1)" using assms(2) by (simp add: add.commute add.left_commute)
  with assms(1) have il: "ilog2 \<bar>y\<bar> = e + 52" by (intro ilog2_unique)
  have ex: "max (ilog2 \<bar>y\<bar> - 52) (- 1074) = e" using assms(3) by (simp add: il)
  have "y / 2 powi e - of_int m = (y - of_int m * 2 powi e) / 2 powi e"
    using pe by (simp add: field_simps)
  then have "\<bar>y / 2 powi e - of_int m\<bar> = \<bar>y - of_int m * 2 powi e\<bar> / 2 powi e"
    using pe by (simp add: abs_divide)
  also have "\<dots> < 2 powi (e - 1) / 2 powi e"
    using assms(4) pe by (simp add: divide_strict_right_mono)
  also have "\<dots> = 1 / 2" by (simp add: powi2_diff)
  finally have "py_round (y / 2 powi e) = m" by (rule py_round_unique)
  then show ?thesis using y0 by (simp add: fl_def ex Let_def)
qed

lemma float_of_int_small: "\<bar>n\<bar> \<le> 2 ^ 53 \<Longrightarrow> float_of_int n = of_int n"
  by (simp add: float_of_int_def fl_of_int)

lemma is_float_dyadic: "\<bar>m\<bar> \<le> 2 ^ 53 \<Longrightarrow> k \<le> 1074 \<Longrightarrow> is_float (of_int m / 2 ^ k)"
  by (rule is_floatI[of _ m "- int k"]) (simp_all add: power_int_minus_divide)

lemma fl_dyadic: "\<bar>m\<bar> \<le> 2 ^ 53 \<Longrightarrow> k \<le> 1074 \<Longrightarrow> fl (of_int m / 2 ^ k) = of_int m / 2 ^ k"
  by (simp add: fl_exact is_float_dyadic)

lemma fl_le: "x \<le> of_int m / 2 ^ k \<Longrightarrow> \<bar>m\<bar> \<le> 2 ^ 53 \<Longrightarrow> k \<le> 1074 \<Longrightarrow> fl x \<le> of_int m / 2 ^ k"
  using fl_mono[of x "of_int m / 2 ^ k"] by (simp add: fl_dyadic)

lemma fl_ge: "of_int m / 2 ^ k \<le> x \<Longrightarrow> \<bar>m\<bar> \<le> 2 ^ 53 \<Longrightarrow> k \<le> 1074 \<Longrightarrow> of_int m / 2 ^ k \<le> fl x"
  using fl_mono[of "of_int m / 2 ^ k" x] by (simp add: fl_dyadic)

lemma powi2_nat_diff: "(2::rat) powi (int j - int k) = 2 ^ j / 2 ^ k"
  by (simp add: powi2_diff)

subsection \<open>Evaluation of the float operations on numerals\<close>

lemmas float_ops = fadd_def fsub_def fmul_def fquot_def float_of_int_def

lemma py_round_numeral_frac: "py_round (numeral a / numeral b) = round_frac (numeral a) (numeral b)"
  using py_round_frac[of "numeral b" "numeral a"] by simp
lemma py_round_neg_numeral_frac: "py_round (- (numeral a / numeral b)) = round_frac (- numeral a) (numeral b)"
  using py_round_frac[of "numeral b" "- numeral a"] by simp
lemma py_round_one_frac: "py_round (1 / numeral b) = round_frac 1 (numeral b)"
  using py_round_frac[of "numeral b" 1] by simp
lemma py_round_numeral: "py_round (numeral a) = numeral a"
  using py_round_of_int[of "numeral a"] by simp
lemma py_round_neg_numeral: "py_round (- numeral a) = - numeral a"
  using py_round_of_int[of "- numeral a"] by simp
lemma py_round_0: "py_round 0 = 0"
  using py_round_of_int[of 0] by simp
lemma py_round_1: "py_round 1 = 1"
  using py_round_of_int[of 1] by simp

lemmas py_round_eval = py_round_numeral_frac py_round_neg_numeral_frac py_round_one_frac
  py_round_numeral py_round_neg_numeral py_round_0 py_round_1 round_frac_def round_rem_def

section \<open>Properties of the parser\<close>

lemmas parser_defs = format_color_def hex_pattern_def before_dollar_def dec_pattern_def
  dec_field_def is_lower_hex_def is_digit_def is_hex_def rgba_def dec_literal_def hex_literal_def
  strip_def rstrip_def is_space_def digits_val_def digit_val_def

lemma split_on_covers:
  "c \<in> set s \<Longrightarrow> c \<noteq> sep \<Longrightarrow> \<exists>f \<in> set (split_on sep s). c \<in> set f"
  by (induction s) (auto split: list.splits)

lemma before_dollar_keeps:
  "c \<in> set s \<Longrightarrow> c \<noteq> CHR 0x0A \<Longrightarrow> c \<in> set (before_dollar s)"
proof (cases "s \<noteq> [] \<and> last s = CHR 0x0A")
  case True
  assume c: "c \<in> set s" "c \<noteq> CHR 0x0A"
  from True have "s = butlast s @ [CHR 0x0A]" by (metis append_butlast_last_id)
  then have "set s = set (butlast s) \<union> {CHR 0x0A}" by (metis list.set(1) list.simps(15) set_append)
  with c True show ?thesis by (auto simp: before_dollar_def)
next
  case False
  then show "c \<in> set s \<Longrightarrow> c \<in> set (before_dollar s)" by (auto simp: before_dollar_def)
qed

lemma upper_not_matched:
  assumes "c \<in> set s" "c \<in> set ''ABCDEF''"
  shows "\<not> hex_pattern s" "\<not> dec_pattern s"
proof -
  from assms(2) have nl: "\<not> is_lower_hex c" and nd: "\<not> is_digit c" and nc: "c \<noteq> CHR '',''"
    by (auto simp: is_lower_hex_def is_digit_def)
  from assms(1) nl show "\<not> hex_pattern s"
    by (auto simp: hex_pattern_def list_all_iff)
  from split_on_covers[OF assms(1) nc] obtain f where "f \<in> set (split_on CHR '','' s)" "c \<in> set f"
    by blast
  with nd show "\<not> dec_pattern s"
    by (auto simp: dec_pattern_def dec_field_def list_all_iff Let_def)
qed

text \<open>
  Claim C10. Hex parsing is lowercase-only: every token that contains one of the uppercase
  hexadecimal letters \<open>A\<close> to \<open>F\<close> is answered with \<open>None\<close>; so \<open>FF0000\<close> and \<open>ABC\<close> are
  rejected although \<open>ff0000\<close> and \<open>abc\<close> parse.
\<close>

theorem format_color_uppercase_rejected:
  "(\<forall>color. (\<exists>c \<in> set color. c \<in> set ''ABCDEF'') \<longrightarrow> format_color color = Inr None)
   \<and> format_color ''FF0000'' = Inr None \<and> format_color ''ff0000'' = Inr (Some [255, 0, 0, 255])
   \<and> format_color ''ABC'' = Inr None \<and> format_color ''abc'' = Inr (Some [170, 187, 204, 255])"
proof -
  have gen: "format_color color = Inr None" if "\<exists>c \<in> set color. c \<in> set ''ABCDEF''" for color
  proof -
    from that obtain c where c: "c \<in> set color" "c \<in> set ''ABCDEF''" by blast
    then have "c \<noteq> CHR 0x0A" by auto
    with c have "c \<in> set (before_dollar color)" by (simp add: before_dollar_keeps)
    with c(2) upper_not_matched show ?thesis by (simp add: format_color_def)
  qed
  have "format_color ''FF0000'' = Inr None" "format_color ''ABC'' = Inr None"
    by (rule gen, simp)+
  moreover have "format_color ''ff0000'' = Inr (Some [255, 0, 0, 255])"
    by code_simp
  moreover have "format_color ''abc'' = Inr (Some [170, 187, 204, 255])"
    by code_simp
  ultimately show ?thesis using gen by blast
qed

theorem format_color_uppercase_rejected_witness:
  "(\<exists>c \<in> set ''00Ff00''. c \<in> set ''ABCDEF'') \<and> format_color ''00Ff00'' = Inr None"
proof -
  have h: "\<exists>c \<in> set ''00Ff00''. c \<in> set ''ABCDEF''" by simp
  from format_color_uppercase_rejected h have "format_color ''00Ff00'' = Inr None" by blast
  with h show ?thesis by blast
qed

text \<open>
  Claim C1. The parser is to return four integers in \<open>[0, 255]\<close> or \<open>None\<close>. The decimal
  pattern admits any field of one to three digits, and \<^verbatim>\<open>format_color\<close> passes the value
  on unchecked: the token \<open>999,0,0,255\<close> yields a red channel of 999.
\<close>

theorem format_color_decimal_above_255:
  "format_color ''999,0,0,255'' = Inr (Some [999, 0, 0, 255])"
  by (simp add: parser_defs)

text \<open>
  A token that ends in a newline can pass the pattern and still fail in \<^verbatim>\<open>int\<close>; \<^verbatim>\<open>read_colors\<close>
  strips every line first, so it never passes such a token.
\<close>

lemma format_color_trailing_newline: "format_color (''abc'' @ [CHR 0x0A]) = Inl ValueError"
  by code_simp

section \<open>Properties of \<^verbatim>\<open>lowest\<close> and \<^verbatim>\<open>highest\<close>\<close>

lemma py_min_snoc:
  "xs \<noteq> [] \<Longrightarrow> \<exists>m m'. py_min xs = Inr m \<and> py_min (xs @ [y]) = Inr m' \<and> m' \<le> m"
  by (cases xs) (simp_all add: py_min_def)

lemma py_max_snoc:
  "xs \<noteq> [] \<Longrightarrow> \<exists>m m'. py_max xs = Inr m \<and> py_max (xs @ [y]) = Inr m' \<and> m \<le> m'"
  by (cases xs) (simp_all add: py_max_def)

text \<open>
  Claim C7. \<^verbatim>\<open>lowest\<close> and \<^verbatim>\<open>highest\<close> are component-wise monotonic: on a non-empty
  batch both return four channels, and after one more sample \<open>(r, g, b, a)\<close> has been
  appended no channel of \<^verbatim>\<open>lowest\<close> has grown and no channel of \<^verbatim>\<open>highest\<close> has shrunk.
\<close>

theorem lowest_highest_monotonic:
  assumes "red \<noteq> []" "green \<noteq> []" "blue \<noteq> []" "alpha \<noteq> []"
  shows "\<exists>lo lo' hi hi'.
     lowest red green blue alpha = Inr lo \<and>
     lowest (red @ [r]) (green @ [g]) (blue @ [b]) (alpha @ [a]) = Inr lo' \<and>
     highest red green blue alpha = Inr hi \<and>
     highest (red @ [r]) (green @ [g]) (blue @ [b]) (alpha @ [a]) = Inr hi' \<and>
     length lo = 4 \<and> length hi = 4 \<and> list_all2 (\<le>) lo' lo \<and> list_all2 (\<le>) hi hi'"
proof -
  from assms(1) obtain r1 r2 where r: "py_min red = Inr r1" "py_min (red @ [r]) = Inr r2" "r2 \<le> r1"
    using py_min_snoc by blast
  from assms(2) obtain g1 g2 where g: "py_min green = Inr g1" "py_min (green @ [g]) = Inr g2" "g2 \<le> g1"
    using py_min_snoc by blast
  from assms(3) obtain b1 b2 where b: "py_min blue = Inr b1" "py_min (blue @ [b]) = Inr b2" "b2 \<le> b1"
    using py_min_snoc by blast
  from assms(4) obtain a1 a2 where a: "py_min alpha = Inr a1" "py_min (alpha @ [a]) = Inr a2" "a2 \<le> a1"
    using py_min_snoc by blast
  from assms(1) obtain r3 r4 where r': "py_max red = Inr r3" "py_max (red @ [r]) = Inr r4" "r3 \<le> r4"
    using py_max_snoc by blast
  from assms(2) obtain g3 g4 where g': "py_max green = Inr g3" "py_max (green @ [g]) = Inr g4" "g3 \<le> g4"
    using py_max_snoc by blast
  from assms(3) obtain b3 b4 where b': "py_max blue = Inr b3" "py_max (blue @ [b]) = Inr b4" "b3 \<le> b4"
    using py_max_snoc by blast
  from assms(4) obtain a3 a4 where a': "py_max alpha = Inr a3" "py_max (alpha @ [a]) = Inr a4" "a3 \<le> a4"
    using py_max_snoc by blast
  show ?thesis
    using r g b a r' g' b' a' by (simp add: lowest_def highest_def rgba_def)
qed

theorem lowest_highest_monotonic_witness:
  "lowest [10, 200] [20, 30] [30, 30] [255, 128] = Inr [10, 20, 30, 128] \<and>
   lowest ([10, 200] @ [5]) ([20, 30] @ [25]) ([30, 30] @ [40]) ([255, 128] @ [0]) = Inr [5, 20, 30, 0] \<and>
   highest [10, 200] [20, 30] [30, 30] [255, 128] = Inr [200, 30, 30, 255] \<and>
   highest ([10, 200] @ [5]) ([20, 30] @ [25]) ([30, 30] @ [40]) ([255, 128] @ [0]) = Inr [200, 30, 40, 255]"
  using lowest_highest_monotonic [of "[10, 200]" "[20, 30]" "[30, 30]" "[255, 128]" 5 25 40 0]
  by (simp add: lowest_def highest_def rgba_def py_min_def py_max_def)

section \<open>Properties of \<^verbatim>\<open>Color\<close>\<close>

lemma calc_saturation_gray: "calc_saturation v v v = Inr 0"
  by (simp add: calc_saturation_def Let_def)

text \<open>
  Claim C9. For a pure gray \<open>R = G = B = v\<close> with \<open>0 \<le> v \<le> 255\<close>, \<^verbatim>\<open>calc_saturation\<close>
  returns 0, \<^verbatim>\<open>calc_hue\<close> returns 0 and \<^verbatim>\<open>calc_lightness\<close> returns the float \<^verbatim>\<open>v / 255.\<close>
  that the constructor stored, which is within \<open>1 / 2 ^ 53\<close> of the exact \<open>v / 255\<close>.
\<close>

theorem gray_color:
  assumes "0 \<le> v" "v \<le> 255"
  shows "calc_saturation v v v = Inr 0 \<and> calc_hue (Color_init v v v a) = 0 \<and>
         calc_lightness (Color_init v v v a) = fquot (float_of_int v) 255 \<and>
         \<bar>calc_lightness (Color_init v v v a) - of_int v / 255\<bar> \<le> 1 / 2 ^ 53"
proof -
  define x where "x = fquot (float_of_int v) 255"
  have fx: "is_float x" unfolding x_def fquot_def by (rule fl_is_float)
  have hue: "calc_hue (Color_init v v v a) = 0"
    by (simp add: calc_hue_def Color_init_def Let_def fsub_def)
  have "fadd x x = 2 * x"
    unfolding fadd_def using fl_exact[OF is_float_double[OF fx]] by simp
  then have "fquot (fadd x x) 2 = x"
    by (simp add: fquot_def fl_exact[OF fx])
  then have light: "calc_lightness (Color_init v v v a) = x"
    by (simp add: calc_lightness_def Color_init_def x_def)
  from assms have fv: "float_of_int v = of_int v" by (intro float_of_int_small) simp
  have "\<bar>(of_int v :: rat) / 255\<bar> < 2 powi (0 + 1)" using assms by simp
  from fl_error[OF this] have "\<bar>x - of_int v / 255\<bar> \<le> 1 / 2 ^ 53"
    by (simp add: x_def fquot_def fv power_int_minus_divide)
  with hue light show ?thesis by (simp add: calc_saturation_gray x_def)
qed

theorem gray_color_witness:
  "(0::int) \<le> 128 \<and> (128::int) \<le> 255 \<and> calc_saturation 128 128 128 = Inr 0 \<and>
   calc_hue (Color_init 128 128 128 255) = 0 \<and>
   calc_lightness (Color_init 128 128 128 255) = fquot (float_of_int 128) 255"
  using gray_color [of 128 255] by simp

text \<open>The float of a channel: \<^verbatim>\<open>v / 255.\<close> for \<open>v\<close> from 0 to 255.\<close>

lemma channel_float:
  assumes "0 \<le> v" "v \<le> 255"
  shows "0 \<le> fquot (float_of_int v) 255" "fquot (float_of_int v) 255 \<le> 1"
    "fquot (float_of_int v) 255 = 0 \<or> 1 / 256 \<le> fquot (float_of_int v) 255"
    "fquot (float_of_int v) 255 = 1 \<or> fquot (float_of_int v) 255 \<le> 255 / 256"
proof -
  from assms have fv: "float_of_int v = of_int v" by (intro float_of_int_small) simp
  have q: "fquot (float_of_int v) 255 = fl (of_int v / 255)" by (simp add: fquot_def fv)
  have "(of_int 0 :: rat) / 2 ^ 0 \<le> of_int v / 255" using assms by simp
  from fl_ge[OF this] show "0 \<le> fquot (float_of_int v) 255" by (simp add: q)
  have "(of_int v :: rat) / 255 \<le> of_int 1 / 2 ^ 0" using assms by simp
  from fl_le[OF this] show "fquot (float_of_int v) 255 \<le> 1" by (simp add: q)
  show "fquot (float_of_int v) 255 = 0 \<or> 1 / 256 \<le> fquot (float_of_int v) 255"
  proof (cases "v = 0")
    case True
    then show ?thesis by (simp add: fquot_def float_of_int_def)
  next
    case False
    with assms have "1 \<le> v" by simp
    then have "(1::rat) \<le> of_int v" by simp
    then have "(of_int 1 :: rat) / 2 ^ 8 \<le> of_int v / 255" by simp
    from fl_ge[OF this] show ?thesis by (simp add: q)
  qed
  show "fquot (float_of_int v) 255 = 1 \<or> fquot (float_of_int v) 255 \<le> 255 / 256"
  proof (cases "v = 255")
    case True
    with fv show ?thesis by (simp add: fquot_def)
  next
    case False
    with assms have "v \<le> 254" by simp
    then have "(of_int v :: rat) \<le> 254" by simp
    then have "(of_int v :: rat) / 255 \<le> of_int 255 / 2 ^ 8" by simp
    from fl_le[OF this] show ?thesis by (simp add: q)
  qed
qed

lemma saturation_divisor_nonzero:
  assumes "1 / 256 \<le> cmax" "cmax \<le> 1" "0 \<le> cmin" "cmin \<le> 255 / 256"
  shows "fsub 1 \<bar>fsub (fadd cmax cmin) 1\<bar> \<noteq> 0"
proof -
  define u where "u = fadd cmax cmin"
  define t where "t = fsub u 1"
  have "(of_int 1 :: rat) / 2 ^ 8 \<le> cmax + cmin" using assms by simp
  from fl_ge[OF this] have u1: "1 / 256 \<le> u" by (simp add: u_def fadd_def)
  have "cmax + cmin \<le> of_int 511 / 2 ^ 8" using assms by simp
  from fl_le[OF this] have u2: "u \<le> 511 / 256" by (simp add: u_def fadd_def)
  have "of_int (- 255) / 2 ^ 8 \<le> u - 1" using u1 by simp
  from fl_ge[OF this] have t1: "- (255 / 256) \<le> t" by (simp add: t_def fsub_def)
  have "u - 1 \<le> of_int 255 / 2 ^ 8" using u2 by simp
  from fl_le[OF this] have t2: "t \<le> 255 / 256" by (simp add: t_def fsub_def)
  have "(of_int 1 :: rat) / 2 ^ 8 \<le> 1 - \<bar>t\<bar>" using t1 t2 by (simp add: abs_le_iff)
  from fl_ge[OF this] have "1 / 256 \<le> fsub 1 \<bar>t\<bar>" by (simp add: fsub_def)
  then show ?thesis unfolding t_def u_def by simp
qed

lemma calc_saturation_defined:
  assumes "0 \<le> r" "r \<le> 255" "0 \<le> g" "g \<le> 255" "0 \<le> b" "b \<le> 255"
  shows "\<exists>s. calc_saturation r g b = Inr s"
proof -
  define x where "x = fquot (float_of_int r) 255"
  define y where "y = fquot (float_of_int g) 255"
  define z where "z = fquot (float_of_int b) 255"
  define cmax where "cmax = max (max x y) z"
  define cmin where "cmin = min (min x y) z"
  note cx = channel_float[OF assms(1,2), folded x_def]
  note cy = channel_float[OF assms(3,4), folded y_def]
  note cz = channel_float[OF assms(5,6), folded z_def]
  show ?thesis
  proof (cases "cmax = cmin")
    case True
    then show ?thesis
      by (simp add: calc_saturation_def Let_def x_def y_def z_def cmax_def cmin_def)
  next
    case False
    have le: "cmin \<le> cmax" unfolding cmax_def cmin_def by simp
    with False have lt: "cmin < cmax" by simp
    have "0 \<le> cmin" unfolding cmin_def using cx(1) cy(1) cz(1) by simp
    with lt have "0 < cmax" by simp
    then have a: "1 / 256 \<le> cmax" unfolding cmax_def using cx(3) cy(3) cz(3)
      by (auto simp: max_def split: if_splits)
    have b: "cmax \<le> 1" unfolding cmax_def using cx(2) cy(2) cz(2) by simp
    with lt have "cmin < 1" by simp
    then have c: "cmin \<le> 255 / 256" unfolding cmin_def using cx(4) cy(4) cz(4)
      by (auto simp: min_def split: if_splits)
    have "fsub 1 \<bar>fsub (fadd cmax cmin) 1\<bar> \<noteq> 0"
      by (rule saturation_divisor_nonzero[OF a b \<open>0 \<le> cmin\<close> c])
    with False show ?thesis
      by (simp add: calc_saturation_def Let_def x_def y_def z_def cmax_def cmin_def)
  qed
qed

lemma fl_error_less_2: "\<bar>x\<bar> < 2 \<Longrightarrow> \<bar>fl x - x\<bar> \<le> 1 / 2 ^ 53"
  using fl_error[of x 0] by (simp add: power_int_minus_divide)

lemma saturation_quotient_range:
  assumes "1 / 256 \<le> cmax" "cmax \<le> 1" "0 \<le> cmin" "cmin \<le> 255 / 256" "cmin < cmax"
  shows "0 \<le> fquot (fsub cmax cmin) (fsub 1 \<bar>fsub (fadd cmax cmin) 1\<bar>)"
    "fquot (fsub cmax cmin) (fsub 1 \<bar>fsub (fadd cmax cmin) 1\<bar>) \<le> 2"
proof -
  define u where "u = fadd cmax cmin"
  define t where "t = fsub u 1"
  define d where "d = fsub 1 \<bar>t\<bar>"
  define n where "n = fsub cmax cmin"
  have "(of_int 1 :: rat) / 2 ^ 8 \<le> cmax + cmin" using assms by simp
  from fl_ge[OF this] have u1: "1 / 256 \<le> u" by (simp add: u_def fadd_def)
  have "cmax + cmin \<le> of_int 511 / 2 ^ 8" using assms by simp
  from fl_le[OF this] have u2: "u \<le> 511 / 256" by (simp add: u_def fadd_def)
  have ue: "\<bar>u - (cmax + cmin)\<bar> \<le> 1 / 2 ^ 53"
    unfolding u_def fadd_def using assms by (intro fl_error_less_2) simp
  have "of_int (- 255) / 2 ^ 8 \<le> u - 1" using u1 by simp
  from fl_ge[OF this] have t1: "- (255 / 256) \<le> t" by (simp add: t_def fsub_def)
  have "u - 1 \<le> of_int 255 / 2 ^ 8" using u2 by simp
  from fl_le[OF this] have t2: "t \<le> 255 / 256" by (simp add: t_def fsub_def)
  have te: "\<bar>t - (u - 1)\<bar> \<le> 1 / 2 ^ 53"
    unfolding t_def fsub_def using u1 u2 by (intro fl_error_less_2) simp
  have "(of_int 1 :: rat) / 2 ^ 8 \<le> 1 - \<bar>t\<bar>" using t1 t2 by (simp add: abs_le_iff)
  from fl_ge[OF this] have d1: "1 / 256 \<le> d" by (simp add: d_def fsub_def)
  have de: "\<bar>d - (1 - \<bar>t\<bar>)\<bar> \<le> 1 / 2 ^ 53"
    unfolding d_def fsub_def using t1 t2 by (intro fl_error_less_2) (simp add: abs_if)
  have "(of_int 0 :: rat) / 2 ^ 0 \<le> cmax - cmin" using assms by simp
  from fl_ge[OF this] have n0: "0 \<le> n" by (simp add: n_def fsub_def)
  have ne: "\<bar>n - (cmax - cmin)\<bar> \<le> 1 / 2 ^ 53"
    unfolding n_def fsub_def using assms by (intro fl_error_less_2) simp
  have ex: "cmax - cmin \<le> 1 - \<bar>cmax + cmin - 1\<bar>" using assms by (simp add: abs_if)
  have "\<bar>t - (cmax + cmin - 1)\<bar> \<le> 2 / 2 ^ 53" using ue te by linarith
  then have "\<bar>t\<bar> \<le> \<bar>cmax + cmin - 1\<bar> + 2 / 2 ^ 53" by linarith
  moreover have "1 - \<bar>t\<bar> \<le> d + 1 / 2 ^ 53" using de by linarith
  moreover have "n \<le> cmax - cmin + 1 / 2 ^ 53" using ne by linarith
  ultimately have "n \<le> d + 4 / 2 ^ 53" using ex by linarith
  moreover have "(4::rat) / 2 ^ 53 \<le> 1 / 256" by simp
  ultimately have "n \<le> 2 * d" using d1 by linarith
  moreover from d1 have dpos: "0 < d" by linarith
  ultimately have "n / d \<le> 2" by (simp only: pos_divide_le_eq)
  then have "n / d \<le> of_int 2 / 2 ^ 0" by simp
  from fl_le[OF this] show "fquot (fsub cmax cmin) (fsub 1 \<bar>fsub (fadd cmax cmin) 1\<bar>) \<le> 2"
    by (simp add: fquot_def n_def d_def t_def u_def)
  from n0 dpos have "(of_int 0 :: rat) / 2 ^ 0 \<le> n / d" by simp
  from fl_ge[OF this] show "0 \<le> fquot (fsub cmax cmin) (fsub 1 \<bar>fsub (fadd cmax cmin) 1\<bar>)"
    by (simp add: fquot_def n_def d_def t_def u_def)
qed

text \<open>The float saturation of a sample with channels from 0 to 255 exists and lies in \<open>[0, 2]\<close>.\<close>

lemma calc_saturation_range:
  assumes "0 \<le> r" "r \<le> 255" "0 \<le> g" "g \<le> 255" "0 \<le> b" "b \<le> 255"
  shows "\<exists>s. calc_saturation r g b = Inr s \<and> 0 \<le> s \<and> s \<le> 2"
proof -
  define x where "x = fquot (float_of_int r) 255"
  define y where "y = fquot (float_of_int g) 255"
  define z where "z = fquot (float_of_int b) 255"
  define cmax where "cmax = max (max x y) z"
  define cmin where "cmin = min (min x y) z"
  note cx = channel_float[OF assms(1,2), folded x_def]
  note cy = channel_float[OF assms(3,4), folded y_def]
  note cz = channel_float[OF assms(5,6), folded z_def]
  show ?thesis
  proof (cases "cmax = cmin")
    case True
    then show ?thesis
      by (simp add: calc_saturation_def Let_def x_def y_def z_def cmax_def cmin_def)
  next
    case False
    have le: "cmin \<le> cmax" unfolding cmax_def cmin_def by simp
    with False have lt: "cmin < cmax" by simp
    have m0: "0 \<le> cmin" unfolding cmin_def using cx(1) cy(1) cz(1) by simp
    with lt have "0 < cmax" by simp
    then have a: "1 / 256 \<le> cmax" unfolding cmax_def using cx(3) cy(3) cz(3)
      by (auto simp: max_def split: if_splits)
    have b: "cmax \<le> 1" unfolding cmax_def using cx(2) cy(2) cz(2) by simp
    with lt have "cmin < 1" by simp
    then have c: "cmin \<le> 255 / 256" unfolding cmin_def using cx(4) cy(4) cz(4)
      by (auto simp: min_def split: if_splits)
    have nz: "fsub 1 \<bar>fsub (fadd cmax cmin) 1\<bar> \<noteq> 0"
      by (rule saturation_divisor_nonzero[OF a b m0 c])
    from False nz have "calc_saturation r g b =
        Inr (fquot (fsub cmax cmin) (fsub 1 \<bar>fsub (fadd cmax cmin) 1\<bar>))"
      by (simp add: calc_saturation_def Let_def x_def y_def z_def cmax_def cmin_def)
    with saturation_quotient_range[OF a b m0 c lt] show ?thesis by blast
  qed
qed

text \<open>Outside that range the divisor can vanish: \<^verbatim>\<open>calc_saturation(510, 0, 0)\<close> raises.\<close>

lemma calc_saturation_510: "calc_saturation 510 0 0 = Inl ZeroDivisionError"
  by (simp add: calc_saturation_def float_ops fl_eval Let_def)

section \<open>Properties of \<^verbatim>\<open>average_saturation\<close>\<close>

lemma saturations_defined:
  assumes "length green = length red" "length blue = length red"
    and "\<forall>v \<in> set red \<union> set green \<union> set blue. 0 \<le> v \<and> v \<le> 255"
  shows "\<exists>ss. saturations red green blue = Inr ss \<and> length ss = length red \<and>
     (\<forall>i < length red. calc_saturation (red ! i) (green ! i) (blue ! i) = Inr (ss ! i)) \<and>
     (\<forall>s \<in> set ss. 0 \<le> s \<and> s \<le> 2)"
  using assms
proof (induction red green blue rule: saturations.induct)
  case (4 r red_avg g green_avg b blue_avg)
  from 4(4) obtain s where s: "calc_saturation r g b = Inr s" "0 \<le> s" "s \<le> 2"
    using calc_saturation_range[of r g b] by auto
  from 4(1)[OF s(1)] 4(2,3,4) obtain ss where ss: "saturations red_avg green_avg blue_avg = Inr ss"
      "length ss = length red_avg"
      "\<forall>i < length red_avg. calc_saturation (red_avg ! i) (green_avg ! i) (blue_avg ! i) = Inr (ss ! i)"
      "\<forall>s \<in> set ss. 0 \<le> s \<and> s \<le> 2"
    by auto
  have "\<forall>i < length (r # red_avg).
      calc_saturation ((r # red_avg) ! i) ((g # green_avg) ! i) ((b # blue_avg) ! i) = Inr ((s # ss) ! i)"
    using s(1) ss(3) by (auto simp: nth_Cons split: nat.splits)
  with s ss(1,2,4) show ?case by simp
qed simp_all

text \<open>The float sum of up to \<open>2 ^ 20\<close> saturations, and the mean computed from it.\<close>

lemma py_sum_error:
  assumes "\<forall>x \<in> set xs. 0 \<le> x \<and> x \<le> 2" "0 \<le> acc" "acc \<le> 2 * of_nat k"
    and "k + length xs \<le> 2 ^ 20"
  shows "0 \<le> foldl fadd acc xs \<and> foldl fadd acc xs \<le> 2 * of_nat (k + length xs) \<and>
     \<bar>foldl fadd acc xs - (acc + sum_list xs)\<bar> \<le> of_nat (length xs) / 2 ^ 32"
  using assms
proof (induction xs arbitrary: acc k)
  case Nil
  then show ?case by simp
next
  case (Cons x xs)
  define a' where "a' = fadd acc x"
  from Cons.prems have x: "0 \<le> x" "x \<le> 2" by simp_all
  from Cons.prems(4) have k: "k < 2 ^ 20" by simp
  then have kr: "(of_nat k :: rat) < 2 ^ 20"
    by (metis of_nat_less_iff of_nat_numeral of_nat_power)
  have "(of_int 0 :: rat) / 2 ^ 0 \<le> acc + x" using x Cons.prems(2) by simp
  from fl_ge[OF this] have a0: "0 \<le> a'" by (simp add: a'_def fadd_def)
  have "acc + x \<le> of_int (2 * int (Suc k)) / 2 ^ 0" using x Cons.prems(3) by simp
  moreover have "\<bar>2 * int (Suc k)\<bar> \<le> 2 ^ 53" using k by simp
  ultimately have "fl (acc + x) \<le> of_int (2 * int (Suc k)) / 2 ^ 0" by (intro fl_le) simp_all
  then have a1: "a' \<le> 2 * of_nat (Suc k)" by (simp add: a'_def fadd_def)
  have "\<bar>acc + x\<bar> < 2 powi (21 + 1)" using x Cons.prems(2,3) kr by simp
  from fl_error[OF this] have ae: "\<bar>a' - (acc + x)\<bar> \<le> 1 / 2 ^ 32"
    by (simp add: a'_def fadd_def power_int_minus_divide)
  from Cons.prems(1) have xs: "\<forall>x \<in> set xs. 0 \<le> x \<and> x \<le> 2" by simp
  from Cons.prems(4) have kk: "Suc k + length xs \<le> 2 ^ 20" by simp
  from Cons.IH[OF xs a0 a1 kk] have ih: "0 \<le> foldl fadd a' xs"
    "foldl fadd a' xs \<le> 2 * of_nat (Suc k + length xs)"
    "\<bar>foldl fadd a' xs - (a' + sum_list xs)\<bar> \<le> of_nat (length xs) / 2 ^ 32"
    by simp_all
  have "((of_nat (length xs) :: rat) + 1) / 2 ^ 32 = of_nat (length xs) / 2 ^ 32 + 1 / 2 ^ 32"
    by (rule add_divide_distrib)
  with ih(3) ae
  have "\<bar>foldl fadd a' xs - (acc + (x + sum_list xs))\<bar> \<le> (of_nat (length xs) + 1) / 2 ^ 32"
    by linarith
  with ih(1,2) show ?case by (simp add: a'_def)
qed

lemma float_mean_error:
  assumes "\<forall>s \<in> set ss. 0 \<le> s \<and> s \<le> 2" "ss \<noteq> []" "length ss \<le> 2 ^ 20"
  shows "\<bar>fquot (py_sum ss) (float_of_int (int (length ss))) - sum_list ss / of_nat (length ss)\<bar>
     \<le> 1 / 2 ^ 31"
proof -
  define n :: rat where "n = of_nat (length ss)"
  define p where "p = py_sum ss"
  from assms(2) have n0: "0 < n" by (simp add: n_def)
  from assms(3) have "int (length ss) \<le> 2 ^ 53"
  proof -
    from assms(3) have "int (length ss) \<le> int (2 ^ 20)" by (simp only: of_nat_le_iff)
    then show ?thesis by simp
  qed
  then have fn: "float_of_int (int (length ss)) = n"
    by (simp add: float_of_int_small n_def)
  from py_sum_error[OF assms(1), of 0 0] assms(3)
  have p: "0 \<le> p" "p \<le> 2 * n" "\<bar>p - sum_list ss\<bar> \<le> n / 2 ^ 32"
    by (simp_all add: p_def py_sum_def n_def)
  have q: "0 \<le> p / n" "p / n \<le> 2" using p(1,2) n0 by (simp_all add: pos_divide_le_eq)
  then have "\<bar>p / n\<bar> < 2 powi (1 + 1)" by simp
  from fl_error[OF this] have e1: "\<bar>fl (p / n) - p / n\<bar> \<le> 1 / 2 ^ 52"
    by (simp add: power_int_minus_divide)
  have "p / n - sum_list ss / n = (p - sum_list ss) / n" by (simp add: diff_divide_distrib)
  then have "\<bar>p / n - sum_list ss / n\<bar> = \<bar>p - sum_list ss\<bar> / n"
    using n0 by (simp add: abs_divide)
  also have "\<dots> \<le> (n / 2 ^ 32) / n" using p(3) n0 by (simp only: divide_right_mono less_imp_le)
  also have "\<dots> = 1 / 2 ^ 32" using n0 by simp
  finally have e2: "\<bar>p / n - sum_list ss / n\<bar> \<le> 1 / 2 ^ 32" .
  have "(1::rat) / 2 ^ 52 + 1 / 2 ^ 32 \<le> 1 / 2 ^ 31" by simp
  with e1 e2 have "\<bar>fl (p / n) - sum_list ss / n\<bar> \<le> 1 / 2 ^ 31" by linarith
  then show ?thesis by (simp add: fquot_def fn p_def n_def)
qed

text \<open>
  Within the range the docstrings give (channels from 0 to 255), on parallel red, green and
  blue lists of equal length, \<^verbatim>\<open>average_saturation\<close> computes the saturation of every sample
  on its own (\<open>ss ! i\<close> is \<^verbatim>\<open>calc_saturation\<close> of sample \<open>i\<close>) and, when there is at least one
  sample, returns their mean: the float sum divided by the number of samples, which for up to
  \<open>2 ^ 20\<close> samples is within \<open>1 / 2 ^ 31\<close> of the exact arithmetic mean of the \<open>ss ! i\<close>.
  There it raises \<^verbatim>\<open>ZeroDivisionError\<close> exactly when the batch is empty.
\<close>

lemma average_saturation_in_range:
  assumes "length green = length red" "length blue = length red"
    and "\<forall>v \<in> set red \<union> set green \<union> set blue. 0 \<le> v \<and> v \<le> 255"
  shows "(red \<noteq> [] \<longrightarrow>
           (\<exists>ss. length ss = length red \<and>
              (\<forall>i < length red. calc_saturation (red ! i) (green ! i) (blue ! i) = Inr (ss ! i)) \<and>
              average_saturation red green blue =
                Inr (fquot (py_sum ss) (float_of_int (int (length red)))) \<and>
              (length red \<le> 2 ^ 20 \<longrightarrow>
                 \<bar>fquot (py_sum ss) (float_of_int (int (length red))) -
                  sum_list ss / of_nat (length red)\<bar> \<le> 1 / 2 ^ 31))) \<and>
         (average_saturation red green blue = Inl ZeroDivisionError \<longleftrightarrow> red = [])"
proof -
  from saturations_defined[OF assms] obtain ss where ss:
    "saturations red green blue = Inr ss" "length ss = length red"
    "\<forall>i < length red. calc_saturation (red ! i) (green ! i) (blue ! i) = Inr (ss ! i)"
    "\<forall>s \<in> set ss. 0 \<le> s \<and> s \<le> 2"
    by blast
  have avg: "average_saturation red green blue =
      (if red = [] then Inl ZeroDivisionError
       else Inr (fquot (py_sum ss) (float_of_int (int (length red)))))"
    by (simp add: average_saturation_def ss(1,2))
  have acc: "\<bar>fquot (py_sum ss) (float_of_int (int (length red))) -
      sum_list ss / of_nat (length red)\<bar> \<le> 1 / 2 ^ 31"
    if "red \<noteq> []" "length red \<le> 2 ^ 20"
  proof -
    from that ss(2) have "ss \<noteq> []" "length ss \<le> 2 ^ 20" by auto
    from float_mean_error[OF ss(4) this] show ?thesis by (simp add: ss(2))
  qed
  from avg ss(2,3) acc show ?thesis by auto
qed

lemma saturation_255_0_0: "calc_saturation 255 0 0 = Inr 1"
  by (simp add: calc_saturation_def float_ops fl_eval Let_def)

lemma saturation_10_20_30: "calc_saturation 10 20 30 = Inr (1 / 2)"
  by (simp add: calc_saturation_def float_ops fl_eval Let_def)

lemma average_saturation_example:
  "length [0, 20 :: int] = length [255, 10 :: int] \<and> length [0, 30 :: int] = length [255, 10 :: int] \<and>
   list_all (\<lambda>v. 0 \<le> v \<and> v \<le> 255) ([255, 10] @ [0, 20] @ [0, 30 :: int]) \<and>
   calc_saturation 255 0 0 = Inr 1 \<and> calc_saturation 10 20 30 = Inr (1 / 2) \<and>
   average_saturation [255, 10] [0, 20] [0, 30] = Inr (3 / 4) \<and>
   average_saturation [] [] [] = Inl ZeroDivisionError"
proof -
  have h1: "length [0, 20 :: int] = length [255, 10 :: int]" by simp
  have h2: "length [0, 30 :: int] = length [255, 10 :: int]" by simp
  have h3: "\<forall>v \<in> set [255, 10] \<union> set [0, 20] \<union> set [0, 30]. 0 \<le> v \<and> v \<le> (255 :: int)" by simp
  have ne: "[255, 10 :: int] \<noteq> []" by simp
  from average_saturation_in_range[OF h1 h2 h3] ne obtain ss where ss: "length ss = length [255, 10 :: int]"
    "\<forall>i < length [255, 10 :: int].
       calc_saturation ([255, 10] ! i) ([0, 20] ! i) ([0, 30] ! i) = Inr (ss ! i)"
    "average_saturation [255, 10] [0, 20] [0, 30] =
       Inr (fquot (py_sum ss) (float_of_int (int (length [255, 10 :: int]))))"
    by blast
  from ss(2) have "calc_saturation 255 0 0 = Inr (ss ! 0)" "calc_saturation 10 20 30 = Inr (ss ! 1)"
    by (auto simp: less_Suc_eq)
  then have "ss ! 0 = 1" "ss ! 1 = 1 / 2"
    by (simp_all add: saturation_255_0_0 saturation_10_20_30)
  moreover from ss(1) obtain x y where "ss = [x, y]"
    by (auto simp: length_Suc_conv)
  ultimately have "ss = [1, 1 / 2]" by simp
  with ss(3) have "average_saturation [255, 10] [0, 20] [0, 30] = Inr (3 / 4)"
    by (simp add: py_sum_def float_ops fl_eval)
  moreover have "average_saturation [] [] [] = Inl ZeroDivisionError"
    using average_saturation_in_range[of "[]" "[]" "[]"] by simp
  ultimately show ?thesis by (simp add: saturation_255_0_0 saturation_10_20_30)
qed

text \<open>
  Claim C5. \<^verbatim>\<open>average_saturation\<close> is to return the mean of the saturations for every batch
  with at least one sample, and to raise only on the empty batch. The decimal pattern of
  \<^verbatim>\<open>format_color\<close> has no range check, so the line \<open>510,0,0,0\<close> is read as a batch of one
  sample with a red channel of 510. For that sample \<open>510 / 255.\<close> is \<open>2.0\<close>, the divisor
  \<open>1 - abs(2.0 + 0.0 - 1)\<close> of \<^verbatim>\<open>calc_saturation\<close> is zero, and \<^verbatim>\<open>average_saturation\<close> raises
  \<^verbatim>\<open>ZeroDivisionError\<close> although the batch is not empty.
\<close>

theorem average_saturation_nonempty_zero_division:
  "format_color ''510,0,0,0'' = Inr (Some [510, 0, 0, 0]) \<and>
   read_colors ''510,0,0,0'' [] = Inr ([510], [0], [0], [0]) \<and>
   length [510 :: int] = 1 \<and>
   fquot (float_of_int 510) 255 = 2 \<and>
   fsub 1 \<bar>fsub (fadd 2 0) 1\<bar> = 0 \<and>
   calc_saturation 510 0 0 = Inl ZeroDivisionError \<and>
   average_saturation [510] [0] [0] = Inl ZeroDivisionError"
proof -
  have "format_color ''510,0,0,0'' = Inr (Some [510, 0, 0, 0])"
    by (simp add: parser_defs)
  moreover have "read_colors ''510,0,0,0'' [] = Inr ([510], [0], [0], [0])"
    by code_simp
  moreover have "fquot (float_of_int 510) 255 = 2"
    by (simp add: float_ops fl_eval)
  moreover have "fsub 1 \<bar>fsub (fadd 2 0) 1\<bar> = 0"
    by (simp add: float_ops fl_eval)
  moreover have "average_saturation [510] [0] [0] = Inl ZeroDivisionError"
    by (simp add: average_saturation_def calc_saturation_510)
  ultimately show ?thesis
    by (simp add: calc_saturation_510)
qed

section \<open>Properties of \<^verbatim>\<open>mix_saturate\<close>\<close>

text \<open>
  Claim C4. When the last sample is achromatic (\<open>R = G = B\<close>, a value that \<^verbatim>\<open>format_color\<close>
  can return), \<^verbatim>\<open>mix_saturate\<close> returns it unchanged, with its alpha, whatever the average
  saturation is. The result is a list, so no \<^verbatim>\<open>ZeroDivisionError\<close> is raised on this path:
  the only divisions executed are the ones by the constant \<^verbatim>\<open>255.\<close>.
\<close>

theorem mix_saturate_achromatic:
  assumes "red \<noteq> []" "green \<noteq> []" "blue \<noteq> []" "alpha \<noteq> []"
    and "last green = last red" "last blue = last red"
    and "0 \<le> last red" "last red \<le> 999"
  shows "mix_saturate red green blue alpha avg_saturation =
         Inr [last red, last green, last blue, last alpha]"
  using assms by (simp add: mix_saturate_def calc_saturation_gray Let_def)

theorem mix_saturate_achromatic_witness:
  "mix_saturate [255, 90] [0, 90] [0, 90] [255, 17] 1 = Inr [90, 90, 90, 17]"
  using mix_saturate_achromatic [of "[255, 90]" "[0, 90]" "[0, 90]" "[255, 17]" 1] by simp

lemma list_index_max:
  "list_index [a, b, c] (max a (max b c)) < 3"
  "[a, b, c] ! list_index [a, b, c] (max a (max b c)) = max a (max b c)"
  by (auto simp: max_def)

lemma list_index_min:
  "list_index [a, b, c] (min a (min b c)) < 3"
  "[a, b, c] ! list_index [a, b, c] (min a (min b c)) = min a (min b c)"
  by (auto simp: min_def)

lemma frame_update:
  assumes "i < 3"
  shows "length ([a, b, c][i := v] @ [d]) = 4" "([a, b, c][i := v] @ [d]) ! 3 = d"
    "\<forall>j<3. j \<noteq> i \<longrightarrow> ([a, b, c][i := v] @ [d]) ! j = [a, b, c] ! j"
  using assms by (auto simp: nth_append less_Suc_eq numeral_3_eq_3)

text \<open>
  Claim C8. On a non-empty batch, every list that \<^verbatim>\<open>mix_saturate\<close> returns has four
  entries, its alpha is the alpha of the last sample, and there is one position \<open>i\<close> among
  red, green and blue, holding the maximum or the minimum of the last sample, outside which
  the result equals the last sample. The second part says when a list is returned: the
  channels of the last sample lie in 0 to 255, the average saturation is at most 2 in
  absolute value (the saturation of such a sample lies between 0 and 2) and neither
  \<^verbatim>\<open>avg_saturation + 1\<close> nor \<^verbatim>\<open>avg_saturation - 1\<close> is zero.
\<close>

theorem mix_saturate_frame:
  assumes "red \<noteq> []" "green \<noteq> []" "blue \<noteq> []" "alpha \<noteq> []"
  shows "(\<forall>res. mix_saturate red green blue alpha avg_saturation = Inr res \<longrightarrow>
           length res = 4 \<and> res ! 3 = last alpha \<and>
           (\<exists>i<3. ([last red, last green, last blue] ! i = max (last red) (max (last green) (last blue)) \<or>
                   [last red, last green, last blue] ! i = min (last red) (min (last green) (last blue))) \<and>
                  (\<forall>j<3. j \<noteq> i \<longrightarrow> res ! j = [last red, last green, last blue] ! j))) \<and>
         ((\<forall>v \<in> {last red, last green, last blue}. 0 \<le> v \<and> v \<le> 255) \<and>
          \<bar>avg_saturation\<bar> \<le> 2 \<and> fadd avg_saturation 1 \<noteq> 0 \<and> fsub avg_saturation 1 \<noteq> 0 \<longrightarrow>
          (\<exists>res. mix_saturate red green blue alpha avg_saturation = Inr res))"
proof -
  define lr lg lb la where "lr = last red" and "lg = last green" and "lb = last blue"
    and "la = last alpha"
  define lc where "lc = [lr, lg, lb]"
  define imax where "imax = list_index lc (max lr (max lg lb))"
  define imin where "imin = list_index lc (min lr (min lg lb))"
  define cmax where "cmax = fquot (float_of_int (max lr (max lg lb))) 255"
  define cmin where "cmin = fquot (float_of_int (min lr (min lg lb))) 255"
  have ms: "mix_saturate red green blue alpha avg_saturation =
    (case calc_saturation lr lg lb of
       Inl e \<Rightarrow> Inl e
     | Inr last_saturation \<Rightarrow>
         if last_saturation < avg_saturation \<and> cmax \<noteq> cmin then
           (case new_cmax avg_saturation cmin of
              Inl e \<Rightarrow> Inl e
            | Inr v \<Rightarrow> Inr (lc[imax := py_round (fmul v 255)] @ [la]))
         else if avg_saturation < last_saturation \<and> cmax \<noteq> cmin then
           (case new_cmin avg_saturation cmax of
              Inl e \<Rightarrow> Inl e
            | Inr v \<Rightarrow> Inr (lc[imin := py_round (fmul v 255)] @ [la]))
         else Inr (lc @ [la]))"
    unfolding cmax_def cmin_def imax_def imin_def lc_def lr_def lg_def lb_def la_def
      mix_saturate_def Let_def
    using assms by simp
  have imax: "imax < 3" "lc ! imax = max lr (max lg lb)"
    unfolding imax_def lc_def by (rule list_index_max)+
  have imin: "imin < 3" "lc ! imin = min lr (min lg lb)"
    unfolding imin_def lc_def by (rule list_index_min)+
  have upd: "length (lc[i := v] @ [la]) = 4 \<and> (lc[i := v] @ [la]) ! 3 = la \<and>
      (\<forall>j<3. j \<noteq> i \<longrightarrow> (lc[i := v] @ [la]) ! j = lc ! j)" if "i < 3" for i v
    using frame_update[OF that, of lr lg lb v la] unfolding lc_def by blast
  have same: "length (lc @ [la]) = 4 \<and> (lc @ [la]) ! 3 = la \<and>
      (\<forall>j<3. j \<noteq> imax \<longrightarrow> (lc @ [la]) ! j = lc ! j)"
    unfolding lc_def by (auto simp: nth_append less_Suc_eq numeral_3_eq_3)
  have part1: "length res = 4 \<and> res ! 3 = la \<and>
      (\<exists>i<3. (lc ! i = max lr (max lg lb) \<or> lc ! i = min lr (min lg lb)) \<and>
         (\<forall>j<3. j \<noteq> i \<longrightarrow> res ! j = lc ! j))"
    if res: "mix_saturate red green blue alpha avg_saturation = Inr res" for res
  proof (cases "calc_saturation lr lg lb")
    case (Inl e)
    with res ms show ?thesis by simp
  next
    case (Inr ls)
    consider (up) "ls < avg_saturation \<and> cmax \<noteq> cmin"
      | (down) "\<not> (ls < avg_saturation \<and> cmax \<noteq> cmin)" "avg_saturation < ls \<and> cmax \<noteq> cmin"
      | (keep) "\<not> (ls < avg_saturation \<and> cmax \<noteq> cmin)" "\<not> (avg_saturation < ls \<and> cmax \<noteq> cmin)"
      by blast
    then show ?thesis
    proof cases
      case up
      with res ms Inr obtain v where "res = lc[imax := py_round (fmul v 255)] @ [la]"
        by (auto split: sum.splits)
      with upd[OF imax(1)] imax show ?thesis by blast
    next
      case down
      with res ms Inr obtain v where "res = lc[imin := py_round (fmul v 255)] @ [la]"
        by (auto split: sum.splits)
      with upd[OF imin(1)] imin show ?thesis by blast
    next
      case keep
      with res ms Inr have "res = lc @ [la]" by auto
      with same imax show ?thesis by blast
    qed
  qed
  have part2: "\<exists>res. mix_saturate red green blue alpha avg_saturation = Inr res"
    if rng: "\<forall>v \<in> {lr, lg, lb}. 0 \<le> v \<and> v \<le> 255"
      and nz: "fadd avg_saturation 1 \<noteq> 0" "fsub avg_saturation 1 \<noteq> 0"
  proof -
    from rng obtain ls where ls: "calc_saturation lr lg lb = Inr ls"
      using calc_saturation_defined[of lr lg lb] by auto
    from nz obtain v1 where v1: "new_cmax avg_saturation cmin = Inr v1"
      by (simp add: new_cmax_def Let_def)
    from nz obtain v2 where v2: "new_cmin avg_saturation cmax = Inr v2"
      by (simp add: new_cmin_def Let_def)
    show ?thesis by (simp add: ms ls v1 v2)
  qed
  from part1 part2 show ?thesis
    unfolding lr_def lg_def lb_def la_def lc_def by blast
qed

lemma mix_saturate_example:
  "mix_saturate [200, 10] [100, 120] [50, 30] [255, 128] (3 / 4) = Inr [17, 120, 30, 128]"
  by (simp add: mix_saturate_def calc_saturation_def new_cmin_def float_ops fl_eval
      py_round_eval Let_def)

theorem mix_saturate_frame_witness:
  "mix_saturate [200, 10] [100, 120] [50, 30] [255, 128] (3 / 4) = Inr [17, 120, 30, 128] \<and>
   length [17, 120, 30, 128 :: int] = 4 \<and> [17, 120, 30, 128 :: int] ! 3 = last [255, 128] \<and>
   [17, 120, 30, 128 :: int] ! 2 = last [50, 30] \<and>
   fadd (3 / 4) 1 = 7 / 4 \<and> fsub (3 / 4) 1 = - (1 / 4)"
proof -
  have ne: "[200, 10 :: int] \<noteq> []" "[100, 120 :: int] \<noteq> []" "[50, 30 :: int] \<noteq> []"
    "[255, 128 :: int] \<noteq> []" by simp_all
  have nz: "fadd (3 / 4) 1 = 7 / 4" "fsub (3 / 4) 1 = - (1 / 4)"
    by (simp_all add: float_ops fl_eval)
  have rng: "\<forall>v \<in> {last [200, 10], last [100, 120], last [50, 30 :: int]}. 0 \<le> v \<and> v \<le> 255"
    by simp
  have av: "\<bar>3 / 4 :: rat\<bar> \<le> 2" by simp
  from mix_saturate_frame[OF ne, of "3 / 4"] rng nz av obtain res where
    res: "mix_saturate [200, 10] [100, 120] [50, 30] [255, 128] (3 / 4) = Inr res"
    by auto
  with mix_saturate_frame[OF ne, of "3 / 4"] obtain i where i: "i < 3"
    "[last [200, 10], last [100, 120], last [50, 30 :: int]] ! i =
       max (last [200, 10]) (max (last [100, 120]) (last [50, 30])) \<or>
     [last [200, 10], last [100, 120], last [50, 30 :: int]] ! i =
       min (last [200, 10]) (min (last [100, 120]) (last [50, 30]))"
    "\<forall>j<3. j \<noteq> i \<longrightarrow> res ! j = [last [200, 10], last [100, 120], last [50, 30 :: int]] ! j"
    and l: "length res = 4" "res ! 3 = last [255, 128]"
    by blast
  from i(1,2) have "i \<noteq> 2" by (auto simp: less_Suc_eq numeral_3_eq_3)
  with i(3) have r2: "res ! 2 = last [50, 30]" by simp
  from res have "res = [17, 120, 30, 128]" by (simp add: mix_saturate_example)
  with res l r2 nz show ?thesis by simp
qed

text \<open>
  The batch of the two samples \<open>(1, 0, 0, 255)\<close> and \<open>(255, 1, 1, 255)\<close>, which are the
  lines \<open>010000\<close> and \<open>ff0101\<close> of an input file.
\<close>

lemma saturation_255_1_1: "calc_saturation 255 1 1 = Inr 1"
  by (simp add: calc_saturation_def float_ops fl_eval Let_def)

lemma saturation_1_0_0: "calc_saturation 1 0 0 = Inr (281474976710657 / 281474976710656)"
  by (simp add: calc_saturation_def float_ops fl_eval Let_def)

lemma channel_1: "fquot (float_of_int 1) 255 = 282578800148737 / 72057594037927936"
  by (simp add: float_ops fl_eval)

lemma new_cmax_above_one:
  "new_cmax (562949953421313 / 562949953421312) (282578800148737 / 72057594037927936) =
   Inr (- (1130315200594949 / 256))"
  by (simp add: new_cmax_def float_ops fl_eval Let_def)

text \<open>
  Claim C3. The value that replaces the maximum is to lie in \<open>[0, 1]\<close>. For the batch
  above, as \<^verbatim>\<open>read_colors\<close> returns it, the float saturation of the first sample is
  \<open>1 + 2 powi (- 48)\<close>, the average is \<open>1 + 2 powi (- 49)\<close> and exceeds the saturation 1
  of the last sample, the first root comes out above 1, and the code takes the second root
  unchecked: the replacement value is \<open>- 1130315200594949 / 256\<close> and the red channel of
  the result is \<open>- 1125899906842625\<close>.
\<close>

theorem mix_saturate_replacement_out_of_range:
  "read_colors (''010000'' @ [CHR 0x0A] @ ''ff0101'') [] = Inr ([1, 255], [0, 1], [0, 1], [255, 255]) \<and>
   average_saturation [1, 255] [0, 1] [0, 1] = Inr (562949953421313 / 562949953421312) \<and>
   calc_saturation 255 1 1 = Inr 1 \<and>
   new_cmax (562949953421313 / 562949953421312) (fquot (float_of_int 1) 255) =
     Inr (- (1130315200594949 / 256)) \<and>
   mix_saturate [1, 255] [0, 1] [0, 1] [255, 255] (562949953421313 / 562949953421312) =
     Inr [- 1125899906842625, 1, 1, 255]"
proof -
  have "read_colors (''010000'' @ [CHR 0x0A] @ ''ff0101'') [] =
      Inr ([1, 255], [0, 1], [0, 1], [255, 255])"
    by code_simp
  moreover
  have "average_saturation [1, 255] [0, 1] [0, 1] = Inr (562949953421313 / 562949953421312)"
    by (simp add: average_saturation_def saturation_1_0_0 saturation_255_1_1 py_sum_def
        float_ops fl_eval)
  moreover have "mix_saturate [1, 255] [0, 1] [0, 1] [255, 255]
      (562949953421313 / 562949953421312) = Inr [- 1125899906842625, 1, 1, 255]"
    by (simp add: mix_saturate_def saturation_255_1_1 new_cmax_above_one float_ops fl_eval
        py_round_eval Let_def)
  ultimately show ?thesis
    by (simp add: saturation_255_1_1 channel_1 new_cmax_above_one)
qed

section \<open>The hex round trip\<close>

lemma round_trip_binade:
  fixes v :: int and j :: nat
  assumes j: "j \<le> 7" and lo: "2 ^ j < v" and hi: "v < 2 ^ (j + 1)" and hi': "128 * v < 255 * 2 ^ j"
  shows "fl (fl (of_int v / 255) * 255) = of_int v"
proof -
  define P :: rat where "P = 2 ^ j"
  define q :: rat where "q = of_int v / 255"
  define x where "x = fl q"
  define y where "y = x * 255"
  have P1: "1 \<le> P" unfolding P_def by simp
  have vP: "P + 1 \<le> of_int v"
  proof -
    from lo have "2 ^ j + 1 \<le> v" by simp
    then have "(of_int (2 ^ j + 1) :: rat) \<le> of_int v" by (simp only: of_int_le_iff)
    then show ?thesis by (simp add: P_def)
  qed
  have vP2: "of_int v \<le> 2 * P - 1"
  proof -
    from hi have "v \<le> 2 ^ (j + 1) - 1" by simp
    then have "(of_int v :: rat) \<le> of_int (2 ^ (j + 1) - 1)" by (simp only: of_int_le_iff)
    then show ?thesis by (simp add: P_def)
  qed
  have vP3: "128 * of_int v < 255 * P"
  proof -
    from hi' have "(of_int (128 * v) :: rat) < of_int (255 * 2 ^ j)" by (simp only: of_int_less_iff)
    then show ?thesis by (simp add: P_def)
  qed
  have qpos: "0 < q" using vP P1 by (simp add: q_def)
  have "\<bar>q\<bar> < 2 powi ((int j - int 8) + 1)"
  proof -
    have "(2::rat) powi ((int j - int 8) + 1) = 2 powi (int j - int 7)" by (simp add: algebra_simps)
    also have "\<dots> = P / 128" by (simp only: powi2_nat_diff P_def) simp
    finally show ?thesis using vP3 qpos by (simp add: q_def)
  qed
  from fl_error[OF this] have "\<bar>x - q\<bar> \<le> 2 powi (int j - int 8 - 53)" by (simp add: x_def)
  also have "(2::rat) powi (int j - int 8 - 53) = 2 powi (int j - int 61)" by (simp add: algebra_simps)
  also have "\<dots> = P / 2 ^ 61" by (simp only: powi2_nat_diff P_def)
  finally have ex: "\<bar>x - q\<bar> \<le> P / 2 ^ 61" .
  have "y - of_int v = 255 * (x - q)" by (simp add: y_def q_def)
  then have "\<bar>y - of_int v\<bar> = \<bar>255 * (x - q)\<bar>" by (simp only:)
  also have "\<dots> = 255 * \<bar>x - q\<bar>" by (subst abs_mult) simp
  finally have "\<bar>y - of_int v\<bar> = 255 * \<bar>x - q\<bar>" .
  with ex have ey: "\<bar>y - of_int v\<bar> \<le> 255 * P / 2 ^ 61" by simp
  have small: "255 * P / 2 ^ 61 < P / 2 ^ 53" using P1 by (simp add: field_simps)
  have small1: "P / 2 ^ 53 < 1" using j
  proof -
    have "(2::rat) ^ j \<le> 2 ^ 7" using j by (intro power_increasing) simp_all
    then show ?thesis by (simp add: P_def)
  qed
  define e where "e = int j - int 52"
  have pe1: "(2::rat) powi (e - 1) = P / 2 ^ 53"
  proof -
    have "(2::rat) powi (e - 1) = 2 powi (int j - int 53)" by (simp add: e_def algebra_simps)
    then show ?thesis by (simp only: powi2_nat_diff P_def)
  qed
  have pe52: "(2::rat) powi (e + 52) = P" by (simp add: e_def P_def)
  have pe53: "(2::rat) powi (e + 53) = 2 * P"
  proof -
    have "(2::rat) powi (e + 53) = 2 powi (int j + 1)" by (simp add: e_def algebra_simps)
    then show ?thesis by (simp add: P_def powi2_suc)
  qed
  have r: "(of_int v :: rat) = of_int (v * 2 ^ (52 - j)) * 2 powi e"
  proof -
    have pe: "(2::rat) powi e = 2 ^ j / 2 ^ 52" unfolding e_def by (rule powi2_nat_diff)
    have c: "(2::rat) ^ 52 = 2 ^ j * 2 ^ (52 - j)"
      using j by (simp flip: power_add)
    have "(2::rat) ^ (52 - j) * (2 ^ j / 2 ^ 52) = 1" unfolding c by simp
    then have "(2::rat) ^ (52 - j) * 2 powi e = 1" by (simp only: pe)
    then have "of_int v * ((2::rat) ^ (52 - j) * 2 powi e) = of_int v" by (simp only: mult_1_right)
    then show ?thesis by (simp only: of_int_mult of_int_power of_int_numeral mult.assoc)
  qed
  have "fl y = of_int (v * 2 ^ (52 - j)) * 2 powi e"
  proof (rule fl_close)
    show "2 powi (e + 52) \<le> \<bar>y\<bar>" using ey small small1 vP P1 unfolding pe52 by linarith
    show "\<bar>y\<bar> < 2 powi (e + 53)" using ey small small1 vP vP2 P1 unfolding pe53 by linarith
    show "- 1074 \<le> e" by (simp add: e_def)
    show "\<bar>y - of_int (v * 2 ^ (52 - j)) * 2 powi e\<bar> < 2 powi (e - 1)"
      using ey small unfolding pe1 r[symmetric] by linarith
  qed
  then show ?thesis by (simp only: r[symmetric] y_def x_def q_def)
qed

lemma channel_round_trip_pow2:
  "v \<in> {0, 1, 2, 4, 8, 16, 32, 64, 128, 255} \<Longrightarrow> fl (fl (of_int v / 255) * 255) = of_int v"
  by (auto simp: fl_eval)

lemma channel_round_trip:
  assumes "0 \<le> v" "v \<le> 255"
  shows "py_int (fmul (fquot (float_of_int v) 255) 255) = v"
proof -
  from assms have fv: "float_of_int v = of_int v" by (intro float_of_int_small) simp
  from assms have "v = 0 \<or> v = 1 \<or> v = 2 \<or> v = 4 \<or> v = 8 \<or> v = 16 \<or> v = 32 \<or> v = 64 \<or>
      v = 128 \<or> v = 255 \<or> (2 < v \<and> v < 4) \<or> (4 < v \<and> v < 8) \<or> (8 < v \<and> v < 16) \<or>
      (16 < v \<and> v < 32) \<or> (32 < v \<and> v < 64) \<or> (64 < v \<and> v < 128) \<or> (128 < v \<and> v < 255)"
    by arith
  then consider "v \<in> {0, 1, 2, 4, 8, 16, 32, 64, 128, 255}"
    | "2 < v \<and> v < 4" | "4 < v \<and> v < 8" | "8 < v \<and> v < 16" | "16 < v \<and> v < 32"
    | "32 < v \<and> v < 64" | "64 < v \<and> v < 128" | "128 < v \<and> v < 255"
    by (simp only: insert_iff empty_iff) blast
  then have "fl (fl (of_int v / 255) * 255) = of_int v"
  proof cases
    case 1
    then show ?thesis by (rule channel_round_trip_pow2)
  next
    case 2
    then show ?thesis by (intro round_trip_binade[of 1]) simp_all
  next
    case 3
    then show ?thesis by (intro round_trip_binade[of 2]) simp_all
  next
    case 4
    then show ?thesis by (intro round_trip_binade[of 3]) simp_all
  next
    case 5
    then show ?thesis by (intro round_trip_binade[of 4]) simp_all
  next
    case 6
    then show ?thesis by (intro round_trip_binade[of 5]) simp_all
  next
    case 7
    then show ?thesis by (intro round_trip_binade[of 6]) simp_all
  next
    case 8
    then show ?thesis by (intro round_trip_binade[of 7]) simp_all
  qed
  then show ?thesis using assms by (simp add: fmul_def fquot_def fv py_int_def)
qed

lemma lower_hex_digit:
  assumes "is_lower_hex c"
  shows "0 \<le> digit_val c" "digit_val c < 16" "''0123456789abcdef'' ! nat (digit_val c) = c"
    "is_hex c" "\<not> is_space c" "c \<noteq> CHR 0x0A"
  using assms by (auto simp: is_lower_hex_def digit_val_def is_hex_def is_space_def)

lemma hex_literal_pair:
  assumes "is_lower_hex c" "is_lower_hex d"
  shows "hex_literal [c, d] = Inr (16 * digit_val c + digit_val d)"
  using lower_hex_digit(4,5)[OF assms(1)] lower_hex_digit(4,5)[OF assms(2)]
  by (simp add: hex_literal_def rstrip_def digits_val_def)

lemma hex_digits_small: "n < 16 \<Longrightarrow> hex_digits n = [''0123456789abcdef'' ! n]"
  by (subst hex_digits.simps) simp

lemma format_02x_pair:
  assumes "0 \<le> a" "a < 16" "0 \<le> b" "b < 16"
  shows "format_02x (16 * a + b) = [''0123456789abcdef'' ! nat a, ''0123456789abcdef'' ! nat b]"
proof -
  from assms have na: "nat a < 16" and nb: "nat b < 16" by arith+
  show ?thesis
  proof (cases "a = 0")
    case True
    with assms nb show ?thesis by (simp add: format_02x_def hex_digits_small)
  next
    case False
    define n where "n = nat (16 * a + b)"
    from False assms have n16: "\<not> n < 16" unfolding n_def by arith
    from assms have n: "n = nat b + nat a * 16"
      unfolding n_def by (simp add: nat_add_distrib nat_mult_distrib)
    from nb have d: "n div 16 = nat a" and m: "n mod 16 = nat b"
      unfolding n by simp_all
    from n16 d m have "hex_digits n = [''0123456789abcdef'' ! nat a, ''0123456789abcdef'' ! nat b]"
      by (subst hex_digits.simps) (simp add: hex_digits_small[OF na])
    moreover from assms have "\<not> 16 * a + b < 0" "\<bar>16 * a + b\<bar> = 16 * a + b" by simp_all
    ultimately show ?thesis by (simp add: format_02x_def n_def)
  qed
qed

lemma hex_pair_round_trip:
  assumes "is_lower_hex c" "is_lower_hex d"
  shows "\<exists>v. hex_literal [c, d] = Inr v \<and> 0 \<le> v \<and> v \<le> 255 \<and>
     format_02x (py_int (fmul (fquot (float_of_int v) 255) 255)) = [c, d]"
proof -
  note c = lower_hex_digit[OF assms(1)] and d = lower_hex_digit[OF assms(2)]
  define v where "v = 16 * digit_val c + digit_val d"
  have v: "0 \<le> v" "v \<le> 255" using c(1,2) d(1,2) by (simp_all add: v_def)
  have "format_02x v = [c, d]"
    unfolding v_def using format_02x_pair[OF c(1,2) d(1,2)] c(3) d(3) by simp
  with v hex_literal_pair[OF assms] channel_round_trip[OF v] show ?thesis
    by (simp add: v_def)
qed

lemma list8:
  assumes "length xs = 8"
  obtains c0 c1 c2 c3 c4 c5 c6 c7 where "xs = [c0, c1, c2, c3, c4, c5, c6, c7]"
proof -
  from assms have "length xs = Suc (Suc (Suc (Suc (Suc (Suc (Suc (Suc 0)))))))" by simp
  then show ?thesis using that by (auto simp: length_Suc_conv)
qed

text \<open>
  Claim C6. A token of eight lowercase hexadecimal digits parses to four channels, and
  \<^verbatim>\<open>color_to_hex\<close> of the \<^verbatim>\<open>Color\<close> built from them is \<open>#\<close> followed by the token; parsing
  the digits after the \<open>#\<close> gives the same four integers again.
\<close>

theorem hex_round_trip:
  assumes "length token = 8" "list_all is_lower_hex token"
  shows "\<exists>r g b a. format_color token = Inr (Some [r, g, b, a]) \<and>
     color_to_hex (Color_init r g b a) = CHR ''#'' # token \<and>
     format_color (tl (color_to_hex (Color_init r g b a))) = Inr (Some [r, g, b, a])"
proof -
  from assms(1) obtain c0 c1 c2 c3 c4 c5 c6 c7 where t: "token = [c0, c1, c2, c3, c4, c5, c6, c7]"
    by (rule list8)
  with assms(2) have h: "is_lower_hex c0" "is_lower_hex c1" "is_lower_hex c2" "is_lower_hex c3"
    "is_lower_hex c4" "is_lower_hex c5" "is_lower_hex c6" "is_lower_hex c7" by simp_all
  from hex_pair_round_trip[OF h(1,2)] obtain r where r: "hex_literal [c0, c1] = Inr r"
    "format_02x (py_int (fmul (fquot (float_of_int r) 255) 255)) = [c0, c1]" by blast
  from hex_pair_round_trip[OF h(3,4)] obtain g where g: "hex_literal [c2, c3] = Inr g"
    "format_02x (py_int (fmul (fquot (float_of_int g) 255) 255)) = [c2, c3]" by blast
  from hex_pair_round_trip[OF h(5,6)] obtain b where b: "hex_literal [c4, c5] = Inr b"
    "format_02x (py_int (fmul (fquot (float_of_int b) 255) 255)) = [c4, c5]" by blast
  from hex_pair_round_trip[OF h(7,8)] obtain a where a: "hex_literal [c6, c7] = Inr a"
    "format_02x (py_int (fmul (fquot (float_of_int a) 255) 255)) = [c6, c7]" by blast
  have bd: "before_dollar token = token"
    using lower_hex_digit(6)[OF h(8)] by (simp add: before_dollar_def t)
  have hp: "hex_pattern token" using h by (simp add: hex_pattern_def t)
  have fc: "format_color token = Inr (Some [r, g, b, a])"
    using r(1) g(1) b(1) a(1) by (simp add: format_color_def bd hp) (simp add: t rgba_def)
  have ch: "color_to_hex (Color_init r g b a) = CHR ''#'' # token"
    using r(2) g(2) b(2) a(2) by (simp add: color_to_hex_def Color_init_def t)
  from fc ch show ?thesis by auto
qed

theorem hex_round_trip_witness:
  "length ''12abcdef'' = 8 \<and> list_all is_lower_hex ''12abcdef'' \<and>
   (\<exists>r g b a. format_color ''12abcdef'' = Inr (Some [r, g, b, a]) \<and>
     color_to_hex (Color_init r g b a) = CHR ''#'' # ''12abcdef'' \<and>
     format_color (tl (color_to_hex (Color_init r g b a))) = Inr (Some [r, g, b, a]))"
proof -
  have h1: "length ''12abcdef'' = 8" by simp
  have h2: "list_all is_lower_hex ''12abcdef''" by (simp add: is_lower_hex_def)
  from hex_round_trip[OF h1 h2] h1 h2 show ?thesis by blast
qed

section \<open>Properties of \<^verbatim>\<open>mix\<close>\<close>

lemma sum_list_bounds:
  "\<forall>x \<in> set xs. 0 \<le> x \<and> x \<le> c \<Longrightarrow> 0 \<le> sum_list xs \<and> sum_list xs \<le> c * int (length xs)"
  by (induction xs) (auto simp: algebra_simps)

lemma py_round_fl_frac:
  fixes s n :: int
  assumes n: "0 < n" "n \<le> 2 ^ 42" and s: "0 \<le> s" "s \<le> 999 * n"
  shows "py_round (fl (of_int s / of_int n)) = py_round (of_int s / of_int n)"
proof -
  define f r where "f = s div n" and "r = s mod n"
  define q :: rat where "q = of_int s / of_int n"
  define F R N :: rat where "F = of_int f" and "R = of_int r" and "N = of_int n"
  have N: "0 < N" "N \<le> 2 ^ 42"
  proof -
    show "0 < N" using n(1) by (simp add: N_def)
    from n(2) have "(of_int n :: rat) \<le> of_int (2 ^ 42)" by (simp only: of_int_le_iff)
    then show "N \<le> 2 ^ 42" by (simp add: N_def)
  qed
  have r: "0 \<le> r" "r < n" using n(1) by (simp_all add: r_def)
  have f: "0 \<le> f" "f \<le> 999"
  proof -
    show "0 \<le> f" using s(1) n(1) by (simp add: f_def pos_imp_zdiv_nonneg_iff)
    have "s div n \<le> (999 * n) div n" using s(2) n(1) by (intro zdiv_mono1) simp_all
    then show "f \<le> 999" using n(1) by (simp add: f_def)
  qed
  have Ff: "0 \<le> F" "F \<le> 999"
  proof -
    show "0 \<le> F" using f(1) by (simp add: F_def)
    from f(2) have "(of_int f :: rat) \<le> of_int 999" by (simp only: of_int_le_iff)
    then show "F \<le> 999" by (simp add: F_def)
  qed
  have "s = f * n + r" by (simp add: f_def r_def)
  then have "(of_int s :: rat) = F * N + R" by (simp add: F_def N_def R_def)
  then have q: "q = F + R / N" using N(1) by (simp add: q_def N_def[symmetric] field_simps)
  have pr: "py_round q = round_rem f r n"
    unfolding q_def using py_round_frac[OF n(1), of s] by (simp add: round_frac_def f_def r_def)
  have mb: "\<bar>f * 2 ^ 43 + 2 ^ 42 - 1\<bar> \<le> 2 ^ 53" "\<bar>f * 2 ^ 43 + 2 ^ 42 + 1\<bar> \<le> 2 ^ 53"
    "\<bar>f\<bar> \<le> 2 ^ 53" "\<bar>f + 1\<bar> \<le> 2 ^ 53" "\<bar>2 * f + 1\<bar> \<le> 2 ^ 53"
    using f by simp_all
  consider (lo) "2 * r < n" | (hi) "n < 2 * r" | (tie) "2 * r = n" by linarith
  then show ?thesis
  proof cases
    case lo
    then have "2 * r + 1 \<le> n" by simp
    then have "(of_int (2 * r + 1) :: rat) \<le> of_int n" by (simp only: of_int_le_iff)
    then have RN: "2 * R + 1 \<le> N" by (simp add: R_def N_def)
    have "R / N \<le> 1 / 2 - 1 / 2 ^ 43" using N RN by (simp add: field_simps)
    then have up: "q \<le> of_int (f * 2 ^ 43 + 2 ^ 42 - 1) / 2 ^ 43" by (simp add: q F_def)
    have "0 \<le> R / N" using r(1) N(1) by (simp add: R_def)
    then have dn: "of_int f / 2 ^ 0 \<le> q" by (simp add: q F_def)
    from fl_le[OF up mb(1)] have "fl q \<le> F + 1 / 2 - 1 / 2 ^ 43" by (simp add: F_def)
    moreover from fl_ge[OF dn mb(3)] have "F \<le> fl q" by (simp add: F_def)
    ultimately have "\<bar>fl q - of_int f\<bar> < 1 / 2" by (simp add: F_def abs_less_iff)
    then have "py_round (fl q) = f" by (rule py_round_unique)
    with lo show ?thesis by (simp add: pr round_rem_def q_def[symmetric])
  next
    case hi
    then have "n + 1 \<le> 2 * r" by simp
    then have "(of_int (n + 1) :: rat) \<le> of_int (2 * r)" by (simp only: of_int_le_iff)
    then have RN: "N + 1 \<le> 2 * R" by (simp add: R_def N_def)
    have "1 / 2 + 1 / 2 ^ 43 \<le> R / N" using N RN by (simp add: field_simps)
    then have dn: "of_int (f * 2 ^ 43 + 2 ^ 42 + 1) / 2 ^ 43 \<le> q" by (simp add: q F_def)
    from r(2) have "(of_int r :: rat) < of_int n" by (simp only: of_int_less_iff)
    then have "R / N \<le> 1" using N(1) by (simp add: R_def N_def)
    then have up: "q \<le> of_int (f + 1) / 2 ^ 0" by (simp add: q F_def)
    from fl_ge[OF dn mb(2)] have "F + 1 / 2 + 1 / 2 ^ 43 \<le> fl q" by (simp add: F_def)
    moreover from fl_le[OF up mb(4)] have "fl q \<le> F + 1" by (simp add: F_def)
    ultimately have "\<bar>fl q - of_int (f + 1)\<bar> < 1 / 2" by (simp add: F_def abs_less_iff)
    then have "py_round (fl q) = f + 1" by (rule py_round_unique)
    with hi show ?thesis by (simp add: pr round_rem_def q_def[symmetric])
  next
    case tie
    then have "(of_int (2 * r) :: rat) = of_int n" by (simp only:)
    then have "2 * R = N" by (simp add: R_def N_def)
    then have "R / N = 1 / 2" using N(1) by (simp add: field_simps)
    then have "q = of_int (2 * f + 1) / 2 ^ 1" by (simp add: q F_def field_simps)
    moreover have "fl (of_int (2 * f + 1) / 2 ^ 1) = of_int (2 * f + 1) / 2 ^ 1"
      by (rule fl_dyadic[OF mb(5)]) simp
    ultimately have "fl q = q" by (simp only:)
    then show ?thesis by (simp add: q_def)
  qed
qed

lemma mix_channel_mean:
  assumes "xs \<noteq> []" "\<forall>x \<in> set xs. 0 \<le> x \<and> x \<le> 999" "length xs \<le> 2 ^ 42"
  shows "mix_channel xs = Inr (py_round (arithmetic_mean xs))"
proof -
  define n where "n = int (length xs)"
  from assms(1) have n0: "0 < n" by (simp add: n_def)
  from assms(3) have "int (length xs) \<le> int (2 ^ 42)" by (simp only: of_nat_le_iff)
  then have n1: "n \<le> 2 ^ 42" by (simp add: n_def)
  from sum_list_bounds[OF assms(2)] have s: "0 \<le> sum_list xs" "sum_list xs \<le> 999 * n"
    by (simp_all add: n_def)
  from py_round_fl_frac[OF n0 n1 s] n0 show ?thesis
    by (simp add: mix_channel_def true_div_def arithmetic_mean_def n_def)
qed

text \<open>
  Claim C2. \<^verbatim>\<open>mix\<close> returns, for each channel on its own, the arithmetic mean rounded to
  a nearest integer (ties to even): for channel lists that are not empty, hold values that
  \<^verbatim>\<open>format_color\<close> can return (0 to 999) and have at most \<open>2 ^ 42\<close> entries, the result is
  \<open>py_round\<close> of the exact mean, which is within one half of the mean. The file
  \<open>ff0000\<close>, \<open>00ff00\<close>, \<open>0000ff\<close> is read as the batch of \<open>(255, 0, 0, 255)\<close>,
  \<open>(0, 255, 0, 255)\<close> and \<open>(0, 0, 255, 255)\<close>; its mix is \<open>(85, 85, 85, 255)\<close>, in hex
  \<open>#555555ff\<close>.
\<close>

theorem mix_mean_rounded:
  "(\<forall>red green blue alpha.
      (\<forall>xs \<in> {red, green, blue, alpha}.
         xs \<noteq> [] \<and> (\<forall>x \<in> set xs. 0 \<le> x \<and> x \<le> 999) \<and> length xs \<le> 2 ^ 42) \<longrightarrow>
      mix red green blue alpha =
        Inr [py_round (arithmetic_mean red), py_round (arithmetic_mean green),
             py_round (arithmetic_mean blue), py_round (arithmetic_mean alpha)] \<and>
      (\<forall>xs \<in> {red, green, blue, alpha}.
         \<bar>of_int (py_round (arithmetic_mean xs)) - arithmetic_mean xs\<bar> \<le> 1 / 2)) \<and>
   read_colors (''ff0000'' @ [CHR 0x0A] @ ''00ff00'' @ [CHR 0x0A] @ ''0000ff'') [] =
     Inr ([255, 0, 0], [0, 255, 0], [0, 0, 255], [255, 255, 255]) \<and>
   mix [255, 0, 0] [0, 255, 0] [0, 0, 255] [255, 255, 255] = Inr [85, 85, 85, 255] \<and>
   color_to_hex (Color_init 85 85 85 255) = ''#555555ff''"
proof -
  have gen: "mix red green blue alpha =
        Inr [py_round (arithmetic_mean red), py_round (arithmetic_mean green),
             py_round (arithmetic_mean blue), py_round (arithmetic_mean alpha)]"
    if "\<forall>xs \<in> {red, green, blue, alpha}.
         xs \<noteq> [] \<and> (\<forall>x \<in> set xs. 0 \<le> x \<and> x \<le> 999) \<and> length xs \<le> 2 ^ 42"
    for red green blue alpha
  proof -
    from that have "mix_channel red = Inr (py_round (arithmetic_mean red))"
      "mix_channel green = Inr (py_round (arithmetic_mean green))"
      "mix_channel blue = Inr (py_round (arithmetic_mean blue))"
      "mix_channel alpha = Inr (py_round (arithmetic_mean alpha))"
      by (simp_all add: mix_channel_mean)
    then show ?thesis by (simp add: mix_def rgba_def)
  qed
  have near: "\<bar>of_int (py_round (arithmetic_mean xs)) - arithmetic_mean xs\<bar> \<le> 1 / 2" for xs
    by (rule py_round_error)
  have rc: "read_colors (''ff0000'' @ [CHR 0x0A] @ ''00ff00'' @ [CHR 0x0A] @ ''0000ff'') [] =
     Inr ([255, 0, 0], [0, 255, 0], [0, 0, 255], [255, 255, 255])"
    by code_simp
  have mx: "mix [255, 0, 0] [0, 255, 0] [0, 0, 255] [255, 255, 255] = Inr [85, 85, 85, 255]"
    by (simp add: mix_def mix_channel_def true_div_def rgba_def fl_eval py_round_eval)
  have hx: "color_to_hex (Color_init 85 85 85 255) = ''#555555ff''"
    by (simp add: color_to_hex_def Color_init_def channel_round_trip format_02x_def
        hex_digits.simps)
  from gen near rc mx hx show ?thesis by blast
qed

theorem mix_mean_rounded_witness:
  "[255, 0, 0 :: int] \<noteq> [] \<and> list_all (\<lambda>x. 0 \<le> x \<and> x \<le> 999) [255, 0, 0 :: int] \<and>
   length [255, 0, 0 :: int] \<le> 2 ^ 42 \<and>
   mix [255, 0, 0] [0, 255, 0] [0, 0, 255] [255, 255, 255] =
     Inr [py_round (arithmetic_mean [255, 0, 0]), py_round (arithmetic_mean [0, 255, 0]),
          py_round (arithmetic_mean [0, 0, 255]), py_round (arithmetic_mean [255, 255, 255])] \<and>
   py_round (arithmetic_mean [255, 0, 0]) = 85 \<and>
   py_round (arithmetic_mean [255, 255, 255]) = 255"
proof -
  have h: "\<forall>xs \<in> {[255, 0, 0], [0, 255, 0], [0, 0, 255], [255, 255, 255 :: int]}.
      xs \<noteq> [] \<and> (\<forall>x \<in> set xs. 0 \<le> x \<and> x \<le> 999) \<and> length xs \<le> 2 ^ 42"
    by simp
  have v: "py_round (arithmetic_mean [255, 0, 0]) = 85"
    "py_round (arithmetic_mean [255, 255, 255]) = 255"
    by (simp_all add: arithmetic_mean_def py_round_eval)
  have "mix [255, 0, 0] [0, 255, 0] [0, 0, 255] [255, 255, 255] =
     Inr [py_round (arithmetic_mean [255, 0, 0]), py_round (arithmetic_mean [0, 255, 0]),
          py_round (arithmetic_mean [0, 0, 255]), py_round (arithmetic_mean [255, 255, 255])]"
    using mix_mean_rounded h by blast
  with v show ?thesis by simp
qed

end
